theory Spec2Isabelle
  imports Complex_Main "HOL-Library.Multiset" "HOL-Library.Log_Nat"
begin

section \<open>JavaScript numbers\<close>

text \<open>
  The image analysis module computes with JavaScript numbers, which are IEEE 754 doubles.
  Pixel components are the bytes of an \<open>ImageData\<close> row and are modelled as integers;
  sums of their squared differences are integers as well and are exact in doubles (they
  stay far below \<open>2 ^ 53\<close>). A quotient and a sum of scores is the double nearest to the
  exact result: \<open>roundDouble\<close> rounds a real to 53 significant bits, a tie going to the
  even significand. Scores of byte components are far from overflow and from the
  subnormal range, so the exponent is left unbounded.
\<close>

definition pow2 :: "int \<Rightarrow> real" where
  "pow2 e = (if 0 \<le> e then 2 ^ nat e else 1 / 2 ^ nat (- e))"

text \<open>
  The binary exponent of a positive real \<open>x\<close>, that is the integer \<open>e\<close> with
  \<open>pow2 e \<le> x < pow2 (e + 1)\<close>, from the number of bits of an integer next to \<open>x\<close>
  or to \<open>1 / x\<close>.
\<close>

definition binaryExponent :: "real \<Rightarrow> int" where
  "binaryExponent x =
     (if 1 \<le> x then bitlen \<lfloor>x\<rfloor> - 1
      else - bitlen (\<lceil>1 / x\<rceil> - 1))"

definition roundHalfEven :: "real \<Rightarrow> int" where
  "roundHalfEven m =
     (let f = \<lfloor>m\<rfloor>; d = m - real_of_int f
      in if d < 1 / 2 then f
         else if 1 / 2 < d then f + 1
         else if even f then f else f + 1)"

definition roundDouble :: "real \<Rightarrow> real" where
  "roundDouble x =
     (if x = 0 then 0
      else (let ulp = pow2 (binaryExponent \<bar>x\<bar> - 52)
            in sgn x * real_of_int (roundHalfEven (\<bar>x\<bar> / ulp)) * ulp))"

text \<open>
  A number is a double, \<open>NaN\<close> (the value of \<open>0 / 0\<close>) or \<open>Infinity\<close> (the initial
  best score of the permutation search). No negative number is ever formed from a score,
  so negative infinity is not needed.
\<close>

datatype number = NaN | Num real | Infinity

fun num_add :: "number \<Rightarrow> number \<Rightarrow> number" where
  "num_add (Num a) (Num b) = Num (roundDouble (a + b))"
| "num_add NaN _ = NaN"
| "num_add _ NaN = NaN"
| "num_add _ _ = Infinity"

text \<open>The comparisons \<open><\<close> and \<open><=\<close>: every comparison with \<open>NaN\<close> is false.\<close>

fun num_lt :: "number \<Rightarrow> number \<Rightarrow> bool" where
  "num_lt (Num a) (Num b) = (a < b)"
| "num_lt (Num a) Infinity = True"
| "num_lt _ _ = False"

fun num_le :: "number \<Rightarrow> number \<Rightarrow> bool" where
  "num_le (Num a) (Num b) = (a \<le> b)"
| "num_le (Num a) Infinity = True"
| "num_le Infinity Infinity = True"
| "num_le _ _ = False"

section \<open>Blank rows\<close>

definition BLANK_TOLERANCE :: real where
  "BLANK_TOLERANCE = 35"

definition colorDistance :: "real \<Rightarrow> real \<Rightarrow> real \<Rightarrow> real \<Rightarrow> real \<Rightarrow> real \<Rightarrow> real" where
  "colorDistance r1 g1 b1 r2 g2 b2 =
     (let dr = r1 - r2; dg = g1 - g2; db = b1 - b2
      in sqrt (dr * dr + dg * dg + db * db))"

text \<open>
  The test \<open>dist > BLANK_TOLERANCE\<close> of \<open>isRowBlank\<close> for the pixel that starts at
  position \<open>i\<close> of the row. A read past the end of the array gives \<open>undefined\<close>, the
  distance is then \<open>NaN\<close> and the test is false; the loop only calls this with
  \<open>4 \<le> i < length rowData\<close>, so the reads are in range exactly when
  \<open>i + 2 < length rowData\<close>.
\<close>

definition distExceeds :: "int list \<Rightarrow> nat \<Rightarrow> bool" where
  "distExceeds rowData i =
     (i + 2 < length rowData \<and>
      colorDistance (real_of_int (rowData ! 0)) (real_of_int (rowData ! 1))
                    (real_of_int (rowData ! 2))
                    (real_of_int (rowData ! i)) (real_of_int (rowData ! (i + 1)))
                    (real_of_int (rowData ! (i + 2)))
        > BLANK_TOLERANCE)"

function isRowBlankFrom :: "int list \<Rightarrow> nat \<Rightarrow> bool" where
  "isRowBlankFrom rowData i =
     (if i < length rowData
      then (if distExceeds rowData i then False else isRowBlankFrom rowData (i + 4))
      else True)"
  by pat_completeness auto
termination
  by (relation "measure (\<lambda>(rowData, i). length rowData - i)") auto

declare isRowBlankFrom.simps [simp del]

definition isRowBlank :: "int list \<Rightarrow> bool" where
  "isRowBlank rowData = isRowBlankFrom rowData 4"

section \<open>Edge signatures\<close>

text \<open>
  An image as \<open>getEdgePixels\<close> sees it: its natural size and, for each row \<open>y\<close>,
  the bytes \<open>ctx.getImageData(0, y, width, 1).data\<close> of the canvas the image was drawn on
  (four per pixel, in the order red, green, blue, alpha).
\<close>

record image =
  naturalWidth :: nat
  naturalHeight :: nat
  imageData :: "int \<Rightarrow> int list"

record EdgeSignature =
  topPixels :: "int list"
  bottomPixels :: "int list"
  topY :: int
  bottomY :: int
  hasBlankTop :: bool
  hasBlankBottom :: bool

text \<open>
  \<open>Math.min(Math.floor(height * 0.1), 50)\<close>, with the exact tenth in place of the double
  \<open>0.1\<close>: for the height of an image the two products have the same floor.
\<close>

definition maxLetterboxRows :: "nat \<Rightarrow> int" where
  "maxLetterboxRows height = min \<lfloor>real height * (1 / 10)\<rfloor> 50"

text \<open>
  The scan from the top: the loop variable \<open>y\<close> and the variable \<open>topY\<close> as the loop
  updates it; a row that is not blank ends the loop.
\<close>

function topScan :: "image \<Rightarrow> int \<Rightarrow> int \<Rightarrow> int \<Rightarrow> int" where
  "topScan img maxRows y topY' =
     (if y < maxRows
      then (if \<not> isRowBlank (imageData img y) then y
            else topScan img maxRows (y + 1) (y + 1))
      else topY')"
  by pat_completeness auto
termination
  by (relation "measure (\<lambda>(img, maxRows, y, t). nat (maxRows - y))") auto

declare topScan.simps [simp del]

text \<open>The scan from the bottom, while \<open>y >= height - maxLetterboxRows\<close>.\<close>

function bottomScan :: "image \<Rightarrow> int \<Rightarrow> int \<Rightarrow> int \<Rightarrow> int" where
  "bottomScan img lowest y bottomY' =
     (if y \<ge> lowest
      then (if \<not> isRowBlank (imageData img y) then y
            else bottomScan img lowest (y - 1) (y - 1))
      else bottomY')"
  by pat_completeness auto
termination
  by (relation "measure (\<lambda>(img, lowest, y, b). nat (y - lowest + 1))") auto

declare bottomScan.simps [simp del]

text \<open>
  Sampling every tenth pixel of a row: the loop \<open>for (i = 0; i < length; i += 40)\<close>
  pushing three components. A row of \<open>ImageData\<close> holds four bytes per pixel, so the
  three reads at a multiple of four below the length are in range.
\<close>

function samplePixels :: "int list \<Rightarrow> nat \<Rightarrow> int list \<Rightarrow> int list" where
  "samplePixels rowData i pixels =
     (if i < length rowData
      then samplePixels rowData (i + 40)
             (pixels @ [rowData ! i, rowData ! (i + 1), rowData ! (i + 2)])
      else pixels)"
  by pat_completeness auto
termination
  by (relation "measure (\<lambda>(rowData, i, pixels). length rowData - i)") auto

declare samplePixels.simps [simp del]

definition getEdgePixels :: "image \<Rightarrow> EdgeSignature" where
  "getEdgePixels img =
     (let height = int (naturalHeight img);
          maxRows = maxLetterboxRows (naturalHeight img);
          topY' = topScan img maxRows 0 0;
          bottomY' = bottomScan img (height - maxRows) (height - 1) (height - 1)
      in \<lparr> topPixels = samplePixels (imageData img topY') 0 [],
           bottomPixels = samplePixels (imageData img bottomY') 0 [],
           topY = topY',
           bottomY = bottomY',
           hasBlankTop = (topY' > 0),
           hasBlankBottom = (bottomY' < height - 1) \<rparr>)"

section \<open>Pixel difference\<close>

text \<open>The accumulation loop of \<open>calculatePixelDifference\<close> (mean squared error).\<close>

function sumSquaredDiff :: "int list \<Rightarrow> int list \<Rightarrow> nat \<Rightarrow> nat \<Rightarrow> int \<Rightarrow> int" where
  "sumSquaredDiff pixels1 pixels2 len i totalDiff =
     (if i < len
      then (let diff = pixels1 ! i - pixels2 ! i
            in sumSquaredDiff pixels1 pixels2 len (i + 1) (totalDiff + diff * diff))
      else totalDiff)"
  by pat_completeness auto
termination
  by (relation "measure (\<lambda>(p1, p2, len, i, t). len - i)") auto

declare sumSquaredDiff.simps [simp del]

text \<open>
  The final \<open>totalDiff / len\<close> is the double nearest to the quotient. When \<open>len\<close> is 0
  the loop has not run, \<open>totalDiff\<close> is 0 and the quotient \<open>0 / 0\<close> is \<open>NaN\<close>; the
  function has no guard for it.
\<close>

definition calculatePixelDifference :: "int list \<Rightarrow> int list \<Rightarrow> number" where
  "calculatePixelDifference pixels1 pixels2 =
     (let len = min (length pixels1) (length pixels2);
          totalDiff = sumSquaredDiff pixels1 pixels2 len 0 0
      in if len = 0 then NaN else Num (roundDouble (real_of_int totalDiff / real len)))"

text \<open>
  The function of the same name that the content script carries inline: it accumulates
  \<open>Math.abs(pixels1[i] - pixels2[i])\<close>.
\<close>

function sumAbsDiff :: "int list \<Rightarrow> int list \<Rightarrow> nat \<Rightarrow> nat \<Rightarrow> int \<Rightarrow> int" where
  "sumAbsDiff pixels1 pixels2 len i totalDiff =
     (if i < len
      then sumAbsDiff pixels1 pixels2 len (i + 1) (totalDiff + \<bar>pixels1 ! i - pixels2 ! i\<bar>)
      else totalDiff)"
  by pat_completeness auto
termination
  by (relation "measure (\<lambda>(p1, p2, len, i, t). len - i)") auto

declare sumAbsDiff.simps [simp del]

definition calculatePixelDifference_content :: "int list \<Rightarrow> int list \<Rightarrow> number" where
  "calculatePixelDifference_content pixels1 pixels2 =
     (let len = min (length pixels1) (length pixels2);
          totalDiff = sumAbsDiff pixels1 pixels2 len 0 0
      in if len = 0 then NaN else Num (roundDouble (real_of_int totalDiff / real len)))"

section \<open>Permutations\<close>

fun getPermutations :: "'a list \<Rightarrow> 'a list list" where
  "getPermutations arr =
     (if length arr \<le> 1 then [arr]
      else concat (map (\<lambda>i. map (\<lambda>p. (arr ! i) # p)
                                 (getPermutations (take i arr @ drop (i + 1) arr)))
                       [0..<length arr]))"

declare getPermutations.simps [simp del]

section \<open>The order of the images\<close>

text \<open>
  \<open>findOptimalOrder\<close> first collects the edge data of every image, then classifies the
  images, then orders them. The calls of the logger do not influence the result and are
  left out.

  The classification loop. Its state is \<open>firstIdx\<close>, \<open>lastIdx\<close> and
  \<open>floatingIndices\<close>; the value \<open>-1\<close> of an index that was not found is \<open>None\<close>.
\<close>

type_synonym anchors = "nat option \<times> nat option \<times> nat list"

definition classifyStep :: "EdgeSignature list \<Rightarrow> nat \<Rightarrow> anchors \<Rightarrow> anchors" where
  "classifyStep edgeData i st =
     (case st of (firstIdx, lastIdx, floatingIndices) \<Rightarrow>
        if hasBlankTop (edgeData ! i) \<and> hasBlankBottom (edgeData ! i)
        then (firstIdx, lastIdx, floatingIndices @ [i])
        else if hasBlankTop (edgeData ! i) \<and> \<not> hasBlankBottom (edgeData ! i)
        then (Some i, lastIdx, floatingIndices)
        else if hasBlankBottom (edgeData ! i) \<and> \<not> hasBlankTop (edgeData ! i)
        then (firstIdx, Some i, floatingIndices)
        else (firstIdx, lastIdx, floatingIndices))"

definition classify :: "EdgeSignature list \<Rightarrow> anchors" where
  "classify edgeData = fold (classifyStep edgeData) [0..<length edgeData] (None, None, [])"

definition middleIndices :: "nat \<Rightarrow> nat \<Rightarrow> nat \<Rightarrow> nat list \<Rightarrow> nat list" where
  "middleIndices n firstIdx lastIdx floatingIndices =
     filter (\<lambda>i. i \<noteq> firstIdx \<and> i \<noteq> lastIdx \<and> i \<notin> set floatingIndices) [0..<n]"

text \<open>The score of putting image \<open>j\<close> directly below image \<open>i\<close>.\<close>

definition pairDiff :: "EdgeSignature list \<Rightarrow> nat \<Rightarrow> nat \<Rightarrow> number" where
  "pairDiff edgeData i j =
     calculatePixelDifference (bottomPixels (edgeData ! i)) (topPixels (edgeData ! j))"

definition score3 :: "EdgeSignature list \<Rightarrow> nat \<Rightarrow> nat \<Rightarrow> nat \<Rightarrow> nat \<Rightarrow> number" where
  "score3 edgeData a b c d =
     num_add (num_add (pairDiff edgeData a b) (pairDiff edgeData b c)) (pairDiff edgeData c d)"

text \<open>
  The base order of the anchored path. The last branch is the source's \<open>else\<close>: it is
  taken for two or more middle indices and reads the first two of them.
\<close>

definition anchoredBase :: "EdgeSignature list \<Rightarrow> nat \<Rightarrow> nat \<Rightarrow> nat list \<Rightarrow> nat list" where
  "anchoredBase edgeData firstIdx lastIdx middle =
     (if length middle = 0 then [firstIdx, lastIdx]
      else if length middle = 1 then [firstIdx, middle ! 0, lastIdx]
      else (let m0 = middle ! 0; m1 = middle ! 1;
                score1 = score3 edgeData firstIdx m0 m1 lastIdx;
                score2 = score3 edgeData firstIdx m1 m0 lastIdx
            in if num_le score1 score2 then [firstIdx, m0, m1, lastIdx]
               else [firstIdx, m1, m0, lastIdx]))"

text \<open>
  The total of a permutation in the fallback search: the inner loop runs over
  \<open>i < perm.length - 1\<close>, so not at all for an empty or one-element permutation.
\<close>

definition permScore :: "EdgeSignature list \<Rightarrow> nat list \<Rightarrow> number" where
  "permScore edgeData perm =
     fold (\<lambda>i totalDiff. num_add totalDiff (pairDiff edgeData (perm ! i) (perm ! (i + 1))))
          [0..<length perm - 1] (Num 0)"

definition searchStep :: "EdgeSignature list \<Rightarrow> nat list \<Rightarrow> nat list \<times> number \<Rightarrow> nat list \<times> number" where
  "searchStep edgeData perm best =
     (case best of (bestPermutation, bestScore) \<Rightarrow>
        let totalDiff = permScore edgeData perm
        in if num_lt totalDiff bestScore then (perm, totalDiff)
           else (bestPermutation, bestScore))"

definition nonFloating :: "nat \<Rightarrow> nat list \<Rightarrow> nat list" where
  "nonFloating n floatingIndices = filter (\<lambda>i. i \<notin> set floatingIndices) [0..<n]"

definition fallbackBest :: "EdgeSignature list \<Rightarrow> nat list \<Rightarrow> nat list" where
  "fallbackBest edgeData indices =
     fst (fold (searchStep edgeData) (getPermutations indices) (indices, Infinity))"

text \<open>
  \<open>finalOrder\<close> is the index order that \<open>findOptimalOrder\<close> computes from the edge
  data, on the anchored path or on the fallback path.
\<close>

definition anchored :: "nat option \<Rightarrow> nat option \<Rightarrow> bool" where
  "anchored firstIdx lastIdx = (firstIdx \<noteq> None \<and> lastIdx \<noteq> None \<and> firstIdx \<noteq> lastIdx)"

definition finalOrder :: "EdgeSignature list \<Rightarrow> nat list" where
  "finalOrder edgeData =
     (case classify edgeData of (firstIdx, lastIdx, floatingIndices) \<Rightarrow>
        if anchored firstIdx lastIdx
        then anchoredBase edgeData (the firstIdx) (the lastIdx)
               (middleIndices (length edgeData) (the firstIdx) (the lastIdx) floatingIndices)
             @ floatingIndices
        else fallbackBest edgeData (nonFloating (length edgeData) floatingIndices)
             @ floatingIndices)"

definition findOptimalOrder :: "image list \<Rightarrow> image list" where
  "findOptimalOrder imageElements =
     map (\<lambda>i. imageElements ! i) (finalOrder (map getEdgePixels imageElements))"

section \<open>Vocabulary of the specification\<close>

text \<open>
  The classes of the specification, read from the two flags of a signature: a candidate for
  the first place has blank padding at the top only, a candidate for the last place at the
  bottom only, a floating image on both edges.
\<close>

definition firstCandidate :: "EdgeSignature list \<Rightarrow> nat \<Rightarrow> bool" where
  "firstCandidate edgeData i = (hasBlankTop (edgeData ! i) \<and> \<not> hasBlankBottom (edgeData ! i))"

definition lastCandidate :: "EdgeSignature list \<Rightarrow> nat \<Rightarrow> bool" where
  "lastCandidate edgeData i = (hasBlankBottom (edgeData ! i) \<and> \<not> hasBlankTop (edgeData ! i))"

definition floating :: "EdgeSignature list \<Rightarrow> nat \<Rightarrow> bool" where
  "floating edgeData i = (hasBlankTop (edgeData ! i) \<and> hasBlankBottom (edgeData ! i))"

text \<open>The largest index below \<open>n\<close> that satisfies \<open>P\<close>, if there is one.\<close>

definition lastWhere :: "(nat \<Rightarrow> bool) \<Rightarrow> nat \<Rightarrow> nat option" where
  "lastWhere P n = (if \<exists>i<n. P i then Some (Max {i. i < n \<and> P i}) else None)"

section \<open>Example inputs\<close>

text \<open>
  Images ten rows high and two pixels wide, so that the letterbox window is one row. A blank
  row has two equal pixels, a content row a black and a grey one.
\<close>

definition blankRow :: "int list" where
  "blankRow = [0, 0, 0, 255, 0, 0, 0, 255]"

definition contentRow :: "int list" where
  "contentRow = [0, 0, 0, 255, 200, 200, 200, 255]"

definition imgTopBlank :: image where
  "imgTopBlank = \<lparr> naturalWidth = 2, naturalHeight = 10,
                    imageData = (\<lambda>y. if y = 0 then blankRow else contentRow) \<rparr>"

definition imgPlain :: image where
  "imgPlain = \<lparr> naturalWidth = 2, naturalHeight = 10, imageData = (\<lambda>y. contentRow) \<rparr>"

definition imgBottomBlank :: image where
  "imgBottomBlank = \<lparr> naturalWidth = 2, naturalHeight = 10,
                       imageData = (\<lambda>y. if y = 9 then blankRow else contentRow) \<rparr>"

definition imgBothBlank :: image where
  "imgBothBlank = \<lparr> naturalWidth = 2, naturalHeight = 10,
                     imageData = (\<lambda>y. if y = 0 \<or> y = 9 then blankRow else contentRow) \<rparr>"

text \<open>
  Images whose upper and lower half each repeat one row of two pixels: the first pixel is
  the given colour and the second one is far from it, so that no row is blank and the
  fingerprints are the given colours.
\<close>

definition pixelRow :: "int list \<Rightarrow> int list" where
  "pixelRow rgb = rgb @ [255] @ map (\<lambda>c. c + 100) rgb @ [255]"

definition twoRowImage :: "int list \<Rightarrow> int list \<Rightarrow> image" where
  "twoRowImage topRgb bottomRgb =
     \<lparr> naturalWidth = 2, naturalHeight = 10,
       imageData = (\<lambda>y. if y < 5 then pixelRow topRgb else pixelRow bottomRgb) \<rparr>"

definition roundingThree :: "image list" where
  "roundingThree =
     [twoRowImage [2, 0, 2] [1, 2, 0],
      twoRowImage [2, 2, 2] [0, 2, 0],
      twoRowImage [0, 0, 1] [0, 2, 2]]"

definition fiveImages :: "image list" where
  "fiveImages = [imgTopBlank, imgPlain, imgPlain, imgPlain, imgBottomBlank]"

text \<open>
  Edge signatures given directly, where the examples need fingerprints that differ.
\<close>

definition signature :: "bool \<Rightarrow> bool \<Rightarrow> int list \<Rightarrow> int list \<Rightarrow> EdgeSignature" where
  "signature blankTop blankBottom topRow bottomRow =
     \<lparr> topPixels = topRow, bottomPixels = bottomRow,
       topY = (if blankTop then 1 else 0), bottomY = (if blankBottom then 8 else 9),
       hasBlankTop = blankTop, hasBlankBottom = blankBottom \<rparr>"

definition anchoredFour :: "EdgeSignature list" where
  "anchoredFour =
     [signature True False [0, 0, 0] [10, 10, 10],
      signature False False [50, 50, 50] [90, 90, 90],
      signature False False [10, 10, 10] [50, 50, 50],
      signature False True [90, 90, 90] [0, 0, 0]]"

definition tieFour :: "EdgeSignature list" where
  "tieFour =
     [signature True False [1, 0, 1] [0, 1, 1],
      signature False False [0, 1, 1] [2, 1, 2],
      signature False False [0, 2, 2] [1, 1, 1],
      signature False True [1, 1, 1] [0, 0, 0]]"

definition scenarioA :: "EdgeSignature list" where
  "scenarioA = map getEdgePixels [imgTopBlank, imgPlain, imgBottomBlank]"

definition scenarioC :: "EdgeSignature list" where
  "scenarioC = map getEdgePixels [imgTopBlank, imgBothBlank, imgBottomBlank, imgBothBlank]"

definition twoCandidates :: "EdgeSignature list" where
  "twoCandidates =
     map getEdgePixels [imgTopBlank, imgBottomBlank, imgTopBlank, imgBottomBlank, imgPlain]"

section \<open>Rounding to a double\<close>

text \<open>
  \<open>binaryExponent\<close> is the exponent of the binade of its argument, the significand that
  \<open>roundDouble\<close> keeps has 53 bits, and the result is within half a unit in the last
  place of the argument, hence within the relative error \<open>1 / 2 ^ 53\<close>.
\<close>

lemma pow2_powi: "pow2 e = 2 powi e"
  by (simp add: pow2_def power_int_def inverse_eq_divide power_one_over)

lemma pow2_pos: "0 < pow2 e"
  by (simp add: pow2_powi)

lemma pow2_add1: "pow2 (e + 1) = 2 * pow2 e"
  by (simp add: pow2_powi power_int_add)

lemma binaryExponent_bounds:
  assumes "0 < x"
  shows "pow2 (binaryExponent x) \<le> x \<and> x < pow2 (binaryExponent x + 1)"
proof (cases "1 \<le> x")
  case True
  let ?n = "\<lfloor>x\<rfloor>"
  from True have n: "0 < ?n" by simp
  from bitlen_bounds [OF n]
  have lo: "2 ^ nat (bitlen ?n - 1) \<le> ?n" and hi: "?n < 2 ^ nat (bitlen ?n)" by simp_all
  from n have pos: "0 < bitlen ?n" using bitlen_eq_zero_iff [of ?n] bitlen_nonneg [of ?n] by linarith
  have e: "binaryExponent x = bitlen ?n - 1" using True by (simp add: binaryExponent_def)
  have "real_of_int (2 ^ nat (bitlen ?n - 1)) \<le> real_of_int ?n"
    using lo by (simp only: of_int_le_iff)
  then have "2 ^ nat (bitlen ?n - 1) \<le> real_of_int ?n" by simp
  moreover have "real_of_int ?n \<le> x" by simp
  ultimately have "2 ^ nat (bitlen ?n - 1) \<le> x" by linarith
  then have 1: "pow2 (binaryExponent x) \<le> x" using pos by (simp add: e pow2_def)
  from hi have "?n + 1 \<le> 2 ^ nat (bitlen ?n)" by simp
  then have "real_of_int (?n + 1) \<le> real_of_int (2 ^ nat (bitlen ?n))"
    by (simp only: of_int_le_iff)
  then have "real_of_int ?n + 1 \<le> 2 ^ nat (bitlen ?n)" by simp
  moreover have "x < real_of_int ?n + 1" by linarith
  ultimately have "x < 2 ^ nat (bitlen ?n)" by linarith
  then have 2: "x < pow2 (binaryExponent x + 1)" using pos by (simp add: e pow2_def)
  from 1 2 show ?thesis ..
next
  case False
  with assms have x: "0 < x" "x < 1" by simp_all
  let ?y = "1 / x"
  let ?n = "\<lceil>?y\<rceil> - 1"
  from x have y: "1 < ?y" by simp
  then have n: "0 < ?n" by linarith
  have below: "real_of_int ?n < ?y" by linarith
  have above: "?y \<le> real_of_int (?n + 1)" by simp
  from bitlen_bounds [OF n]
  have lo: "2 ^ nat (bitlen ?n - 1) \<le> ?n" and hi: "?n < 2 ^ nat (bitlen ?n)" by simp_all
  from n have pos: "0 < bitlen ?n" using bitlen_eq_zero_iff [of ?n] bitlen_nonneg [of ?n] by linarith
  have e: "binaryExponent x = - bitlen ?n" using False by (simp add: binaryExponent_def)
  from hi have "?n + 1 \<le> 2 ^ nat (bitlen ?n)" by simp
  then have "real_of_int (?n + 1) \<le> real_of_int (2 ^ nat (bitlen ?n))"
    by (simp only: of_int_le_iff)
  then have "real_of_int (?n + 1) \<le> 2 ^ nat (bitlen ?n)" by simp
  with above have "?y \<le> 2 ^ nat (bitlen ?n)" by linarith
  then have "1 \<le> x * 2 ^ nat (bitlen ?n)" using x by (simp add: field_simps)
  then have 1: "pow2 (binaryExponent x) \<le> x"
    using pos by (simp add: e pow2_def field_simps)
  have "real_of_int (2 ^ nat (bitlen ?n - 1)) \<le> real_of_int ?n"
    using lo by (simp only: of_int_le_iff)
  then have "2 ^ nat (bitlen ?n - 1) \<le> real_of_int ?n" by simp
  with below have "2 ^ nat (bitlen ?n - 1) < ?y" by linarith
  then have lt: "x * 2 ^ nat (bitlen ?n - 1) < 1" using x by (simp add: field_simps)
  have "pow2 (binaryExponent x + 1) = 1 / 2 ^ nat (bitlen ?n - 1)"
  proof (cases "bitlen ?n = 1")
    case True
    then show ?thesis by (simp add: e pow2_def)
  next
    case False
    with pos have "1 < bitlen ?n" by simp
    then show ?thesis by (simp add: e pow2_def)
  qed
  moreover from lt have "x < 1 / 2 ^ nat (bitlen ?n - 1)"
    by (simp add: pos_less_divide_eq)
  ultimately have 2: "x < pow2 (binaryExponent x + 1)" by (simp only:)
  from 1 2 show ?thesis ..
qed

lemma roundHalfEven_error: "\<bar>real_of_int (roundHalfEven m) - m\<bar> \<le> 1 / 2"
proof -
  have "real_of_int \<lfloor>m\<rfloor> \<le> m" "m < real_of_int \<lfloor>m\<rfloor> + 1" by linarith+
  then show ?thesis by (auto simp: roundHalfEven_def Let_def)
qed

lemma roundDouble_significand:
  assumes "x \<noteq> 0"
  shows "\<exists>k. roundDouble x = sgn x * real_of_int k * pow2 (binaryExponent \<bar>x\<bar> - 52)
             \<and> 2 ^ 52 \<le> k \<and> k \<le> 2 ^ 53"
proof -
  let ?e = "binaryExponent \<bar>x\<bar>"
  let ?ulp = "pow2 (?e - 52)"
  let ?m = "\<bar>x\<bar> / ?ulp"
  let ?k = "roundHalfEven ?m"
  from assms have "0 < \<bar>x\<bar>" by simp
  from binaryExponent_bounds [OF this]
  have lo: "pow2 ?e \<le> \<bar>x\<bar>" and hi: "\<bar>x\<bar> < pow2 (?e + 1)" by simp_all
  have e: "pow2 ?e = 2 ^ 52 * ?ulp"
    by (simp add: pow2_powi power_int_diff)
  have e1: "pow2 (?e + 1) = 2 ^ 53 * ?ulp"
    by (simp add: pow2_powi power_int_diff power_int_add)
  have ulp: "0 < ?ulp" by (rule pow2_pos)
  from lo e ulp have mlo: "2 ^ 52 \<le> ?m" by (simp add: field_simps)
  from hi e1 ulp have mhi: "?m < 2 ^ 53" by (simp add: field_simps)
  have "real_of_int (2 ^ 52) \<le> ?m" using mlo by simp
  then have "2 ^ 52 \<le> \<lfloor>?m\<rfloor>" by (subst le_floor_iff)
  moreover have "\<lfloor>?m\<rfloor> < 2 ^ 53"
    using mhi by (subst floor_less_iff) simp
  moreover have "\<lfloor>?m\<rfloor> \<le> ?k" "?k \<le> \<lfloor>?m\<rfloor> + 1"
    by (auto simp: roundHalfEven_def Let_def)
  ultimately have "2 ^ 52 \<le> ?k" "?k \<le> 2 ^ 53" by linarith+
  moreover have "roundDouble x = sgn x * real_of_int ?k * ?ulp"
    using assms by (simp add: roundDouble_def Let_def)
  ultimately show ?thesis by blast
qed

lemma roundDouble_error: "\<bar>roundDouble x - x\<bar> \<le> \<bar>x\<bar> / 2 ^ 53"
proof (cases "x = 0")
  case True
  then show ?thesis by (simp add: roundDouble_def)
next
  case False
  let ?e = "binaryExponent \<bar>x\<bar>"
  let ?ulp = "pow2 (?e - 52)"
  let ?m = "\<bar>x\<bar> / ?ulp"
  let ?k = "roundHalfEven ?m"
  from False have "0 < \<bar>x\<bar>" by simp
  from binaryExponent_bounds [OF this] have lo: "pow2 ?e \<le> \<bar>x\<bar>" by simp
  have e: "pow2 ?e = 2 ^ 52 * ?ulp"
    by (simp add: pow2_powi power_int_diff)
  have ulp: "0 < ?ulp" by (rule pow2_pos)
  have rd: "roundDouble x = sgn x * (real_of_int ?k * ?ulp)"
    using False by (simp add: roundDouble_def Let_def)
  have xm: "x = sgn x * (?m * ?ulp)"
    using ulp by (simp add: sgn_mult_abs)
  have "roundDouble x - x = sgn x * ((real_of_int ?k - ?m) * ?ulp)"
    by (subst rd, subst (3) xm) (simp add: algebra_simps)
  then have "\<bar>roundDouble x - x\<bar> = \<bar>real_of_int ?k - ?m\<bar> * ?ulp"
    using False ulp by (simp add: abs_mult abs_sgn_eq)
  also have "\<dots> \<le> 1 / 2 * ?ulp"
    using roundHalfEven_error [of ?m] ulp by (intro mult_right_mono) simp_all
  also have "\<dots> = pow2 ?e / 2 ^ 53" by (simp add: e)
  also have "\<dots> \<le> \<bar>x\<bar> / 2 ^ 53" using lo by (simp add: divide_right_mono)
  finally show ?thesis .
qed

lemma roundDouble_examples:
  "roundDouble (1 / 3) = 6004799503160661 / 18014398509481984"
  "roundDouble (1 / 10) = 3602879701896397 / 36028797018963968"
  "roundDouble 9007199254740993 = 9007199254740992"
  "roundDouble 9007199254740995 = 9007199254740996"
  "roundDouble 65025 = 65025"
  by code_simp+

section \<open>Permutations are generated completely and in order\<close>

lemma mset_remove_index:
  assumes "i < length arr"
  shows "add_mset (arr ! i) (mset (take i arr @ drop (i + 1) arr)) = mset arr"
proof -
  have "arr = take i arr @ arr ! i # drop (Suc i) arr"
    using assms by (rule id_take_nth_drop)
  then have "mset arr = mset (take i arr @ arr ! i # drop (Suc i) arr)"
    by simp
  then show ?thesis by simp
qed

lemma length_remove_index:
  "i < length arr \<Longrightarrow> length (take i arr @ drop (i + 1) arr) = length arr - 1"
  by simp

lemma getPermutations_short: "length arr \<le> 1 \<Longrightarrow> getPermutations arr = [arr]"
  by (simp add: getPermutations.simps)

lemma getPermutations_long:
  "\<not> length arr \<le> 1 \<Longrightarrow>
   getPermutations arr =
     concat (map (\<lambda>i. map (\<lambda>p. (arr ! i) # p)
                            (getPermutations (take i arr @ drop (i + 1) arr)))
                 [0..<length arr])"
  by (subst getPermutations.simps) simp

lemma getPermutations_mset:
  "p \<in> set (getPermutations arr) \<Longrightarrow> mset p = mset arr"
proof (induction arr arbitrary: p rule: getPermutations.induct)
  case (1 arr)
  show ?case
  proof (cases "length arr \<le> 1")
    case True
    with "1.prems" show ?thesis by (simp add: getPermutations_short)
  next
    case False
    with "1.prems" obtain i q where i: "i < length arr"
      and q: "q \<in> set (getPermutations (take i arr @ drop (i + 1) arr))"
      and p: "p = arr ! i # q"
      by (auto simp: getPermutations_long)
    from "1.IH" [OF False _ q] i have "mset q = mset (take i arr @ drop (i + 1) arr)"
      by simp
    with p mset_remove_index [OF i] show ?thesis by simp
  qed
qed

lemma getPermutations_complete:
  "mset p = mset arr \<Longrightarrow> p \<in> set (getPermutations arr)"
proof (induction arr arbitrary: p rule: getPermutations.induct)
  case (1 arr)
  show ?case
  proof (cases "length arr \<le> 1")
    case True
    then have "arr = [] \<or> (\<exists>x. arr = [x])"
      by (cases arr) auto
    with "1.prems" have "p = arr" by auto
    with True show ?thesis by (simp add: getPermutations_short)
  next
    case False
    then have "arr \<noteq> []" by auto
    with "1.prems" have "p \<noteq> []" by auto
    then obtain x q where p: "p = x # q" by (cases p) auto
    with "1.prems" have "x \<in> set arr"
      by (metis list.set_intros(1) mset_eq_setD)
    then obtain i where i: "i < length arr" and x: "arr ! i = x"
      by (auto simp: in_set_conv_nth)
    have "add_mset x (mset q) = add_mset x (mset (take i arr @ drop (i + 1) arr))"
      using "1.prems" p mset_remove_index [OF i] x by simp
    then have "mset q = mset (take i arr @ drop (i + 1) arr)" by simp
    from "1.IH" [OF False _ this] i
    have "q \<in> set (getPermutations (take i arr @ drop (i + 1) arr))" by simp
    with i p x False show ?thesis
      by (auto simp: getPermutations_long intro!: bexI [of _ i])
  qed
qed

lemma getPermutations_length:
  "length (getPermutations arr) = fact (length arr)"
proof (induction arr rule: getPermutations.induct)
  case (1 arr)
  show ?case
  proof (cases "length arr \<le> 1")
    case True
    then have "length arr = 0 \<or> length arr = 1" by arith
    with True show ?thesis by (auto simp: getPermutations_short)
  next
    case False
    have each: "length (getPermutations (take i arr @ drop (i + 1) arr)) = fact (length arr - 1)"
      if "i < length arr" for i
      using "1.IH" [OF False, of i] that by simp
    have "length (getPermutations arr) =
            sum_list (map (\<lambda>i. length (getPermutations (take i arr @ drop (i + 1) arr)))
                          [0..<length arr])"
      using False by (simp add: getPermutations_long length_concat comp_def)
    also have "\<dots> = sum_list (map (\<lambda>i. fact (length arr - 1)) [0..<length arr])"
      by (rule arg_cong [where f = sum_list], rule map_cong) (use each in auto)
    also have "\<dots> = length arr * fact (length arr - 1)"
      by (simp add: sum_list_triv)
    also have "\<dots> = fact (length arr)"
      using False by (cases "length arr") auto
    finally show ?thesis .
  qed
qed

lemma getPermutations_first:
  "getPermutations arr \<noteq> [] \<and> getPermutations arr ! 0 = arr"
proof (induction arr rule: getPermutations.induct)
  case (1 arr)
  show ?case
  proof (cases "length arr \<le> 1")
    case True
    then show ?thesis by (simp add: getPermutations_short)
  next
    case False
    then obtain x y ys where arr: "arr = x # y # ys"
      by (cases arr; cases "tl arr") auto
    from "1.IH" [OF False, of 0] arr
    have ih: "getPermutations (y # ys) \<noteq> [] \<and> getPermutations (y # ys) ! 0 = y # ys"
      by simp
    have upt: "[0..<length arr] = 0 # [1..<length arr]"
      using arr by (simp add: upt_rec)
    have "getPermutations arr =
            map (\<lambda>p. x # p) (getPermutations (y # ys)) @
            concat (map (\<lambda>i. map (\<lambda>p. (arr ! i) # p)
                            (getPermutations (take i arr @ drop (i + 1) arr)))
                 [1..<length arr])"
      using False by (simp add: getPermutations_long upt) (simp add: arr)
    with ih arr show ?thesis
      by (cases "getPermutations (y # ys)") auto
  qed
qed

text \<open>
  Claim C10. For every list \<open>arr\<close> of length \<open>n\<close>, \<open>getPermutations arr\<close> returns
  exactly \<open>n!\<close> lists, each of them a rearrangement of \<open>arr\<close> (the same elements with
  the same multiplicities), and the first list returned is \<open>arr\<close> itself. For the
  ascending list of non-floating indices the identity order is therefore the permutation
  generated first.
\<close>

theorem getPermutations_rearrangements:
  "length (getPermutations arr) = fact (length arr)
   \<and> (\<forall>p \<in> set (getPermutations arr). mset p = mset arr)
   \<and> getPermutations arr \<noteq> []
   \<and> getPermutations arr ! 0 = arr"
  using getPermutations_length [of arr] getPermutations_mset [of _ arr]
    getPermutations_first [of arr]
  by blast

theorem getPermutations_rearrangements_witness:
  "length (getPermutations [0, 1, 2 :: nat]) = 6
   \<and> [2, 0, 1] \<in> set (getPermutations [0, 1, 2 :: nat])
   \<and> mset [2, 0, 1] = mset [0, 1, 2 :: nat]
   \<and> getPermutations [0, 1, 2 :: nat] ! 0 = [0, 1, 2]"
proof -
  have mem: "[2, 0, 1] \<in> set (getPermutations [0, 1, 2 :: nat])"
    by code_simp
  have len: "fact (length [0, 1, 2 :: nat]) = (6 :: nat)"
    by (simp add: eval_nat_numeral)
  note t = getPermutations_rearrangements [of "[0, 1, 2 :: nat]"]
  from t len have "length (getPermutations [0, 1, 2 :: nat]) = 6"
    by (simp only:)
  moreover from t mem have "mset [2, 0, 1] = mset [0, 1, 2 :: nat]"
    by blast
  moreover from t have "getPermutations [0, 1, 2 :: nat] ! 0 = [0, 1, 2]"
    by blast
  ultimately show ?thesis using mem by blast
qed

section \<open>The pixel difference\<close>

lemma sumSquaredDiff_sum:
  "sumSquaredDiff a b len i t = t + (\<Sum>k = i..<len. (a ! k - b ! k)\<^sup>2)"
proof (induction a b len i t rule: sumSquaredDiff.induct)
  case (1 a b len i t)
  show ?case
  proof (cases "i < len")
    case True
    then have "sumSquaredDiff a b len i t =
                 sumSquaredDiff a b len (i + 1) (t + (a ! i - b ! i) * (a ! i - b ! i))"
      by (subst sumSquaredDiff.simps) (simp add: Let_def)
    also have "\<dots> = t + (a ! i - b ! i) * (a ! i - b ! i)
                       + (\<Sum>k = i + 1..<len. (a ! k - b ! k)\<^sup>2)"
      using "1.IH" [OF True refl] .
    also have "\<dots> = t + (\<Sum>k = i..<len. (a ! k - b ! k)\<^sup>2)"
      using True by (simp add: sum.atLeast_Suc_lessThan power2_eq_square)
    finally show ?thesis .
  next
    case False
    then show ?thesis by (subst sumSquaredDiff.simps) simp
  qed
qed

lemma sumAbsDiff_sum:
  "sumAbsDiff a b len i t = t + (\<Sum>k = i..<len. \<bar>a ! k - b ! k\<bar>)"
proof (induction a b len i t rule: sumAbsDiff.induct)
  case (1 a b len i t)
  show ?case
  proof (cases "i < len")
    case True
    then have "sumAbsDiff a b len i t = sumAbsDiff a b len (i + 1) (t + \<bar>a ! i - b ! i\<bar>)"
      by (subst sumAbsDiff.simps) simp
    also have "\<dots> = t + \<bar>a ! i - b ! i\<bar> + (\<Sum>k = i + 1..<len. \<bar>a ! k - b ! k\<bar>)"
      using "1.IH" [OF True] .
    also have "\<dots> = t + (\<Sum>k = i..<len. \<bar>a ! k - b ! k\<bar>)"
      using True by (simp add: sum.atLeast_Suc_lessThan)
    finally show ?thesis .
  next
    case False
    then show ?thesis by (subst sumAbsDiff.simps) simp
  qed
qed

text \<open>
  Claim C8, as amended. For pixel arrays \<open>a\<close> and \<open>b\<close> with
  \<open>n = min (length a) (length b) > 0\<close>, \<open>calculatePixelDifference a b\<close> of the image
  analysis module is the sum of the squared differences of the first \<open>n\<close> aligned
  components, divided by \<open>n\<close>. The inline function of the same name in the content script
  is a different measure: the sum of the absolute differences, divided by \<open>n\<close>. Each
  division is the division of JavaScript numbers, whose result is the double nearest to the
  exact quotient.
\<close>

theorem calculatePixelDifference_mse:
  assumes "0 < min (length a) (length b)"
  shows "calculatePixelDifference a b =
           Num (roundDouble
                  (real_of_int (\<Sum>k = 0..<min (length a) (length b). (a ! k - b ! k)\<^sup>2)
                   / real (min (length a) (length b))))
         \<and> calculatePixelDifference_content a b =
           Num (roundDouble
                  (real_of_int (\<Sum>k = 0..<min (length a) (length b). \<bar>a ! k - b ! k\<bar>)
                   / real (min (length a) (length b))))
         \<and> (\<exists>v. calculatePixelDifference a b = Num v
                \<and> \<bar>v - real_of_int (\<Sum>k = 0..<min (length a) (length b). (a ! k - b ! k)\<^sup>2)
                        / real (min (length a) (length b))\<bar>
                  \<le> \<bar>real_of_int (\<Sum>k = 0..<min (length a) (length b). (a ! k - b ! k)\<^sup>2)
                        / real (min (length a) (length b))\<bar> / 2 ^ 53)"
proof -
  let ?n = "min (length a) (length b)"
  let ?q = "real_of_int (\<Sum>k = 0..<?n. (a ! k - b ! k)\<^sup>2) / real ?n"
  have mse: "calculatePixelDifference a b = Num (roundDouble ?q)"
    using assms
    by (simp add: calculatePixelDifference_def sumSquaredDiff_sum Let_def)
  have mad: "calculatePixelDifference_content a b =
               Num (roundDouble (real_of_int (\<Sum>k = 0..<?n. \<bar>a ! k - b ! k\<bar>) / real ?n))"
    using assms
    by (simp add: calculatePixelDifference_content_def sumAbsDiff_sum Let_def)
  have "\<bar>roundDouble ?q - ?q\<bar> \<le> \<bar>?q\<bar> / 2 ^ 53" by (rule roundDouble_error)
  with mse have "\<exists>v. calculatePixelDifference a b = Num v
                    \<and> \<bar>v - ?q\<bar> \<le> \<bar>?q\<bar> / 2 ^ 53"
    by blast
  with mse mad show ?thesis by blast
qed

theorem calculatePixelDifference_mse_witness:
  "0 < min (length [10, 20, 30 :: int]) (length [13, 20, 30, 40 :: int])
   \<and> calculatePixelDifference [10, 20, 30] [13, 20, 30, 40] = Num 3
   \<and> calculatePixelDifference_content [10, 20, 30] [13, 20, 30, 40] = Num 1"
proof -
  have exact: "roundDouble 3 = 3" "roundDouble 1 = 1" by code_simp+
  from calculatePixelDifference_mse [of "[10, 20, 30]" "[13, 20, 30, 40]"]
  have "calculatePixelDifference [10, 20, 30] [13, 20, 30, 40] = Num (roundDouble 3)"
    and "calculatePixelDifference_content [10, 20, 30] [13, 20, 30, 40] = Num (roundDouble 1)"
    by (simp_all add: eval_nat_numeral)
  then show ?thesis by (simp add: exact)
qed

text \<open>
  The two functions disagree as soon as one aligned difference is larger than 1 in absolute
  value: here the mean squared error is 3 and the mean absolute difference is 1.
\<close>

theorem inline_copy_differs:
  "calculatePixelDifference_content [10, 20, 30] [13, 20, 30]
     \<noteq> calculatePixelDifference [10, 20, 30] [13, 20, 30]"
  by code_simp

text \<open>
  Claim C9, as amended. When \<open>n = min (length a) (length b) = 0\<close>,
  \<open>calculatePixelDifference\<close> has no guard: no iteration of the loop runs and the result
  is the quotient \<open>0 / 0\<close>, that is \<open>NaN\<close>. No exception is raised; the value compares
  false with every number, in either direction.
\<close>

theorem calculatePixelDifference_empty:
  assumes "min (length a) (length b) = 0"
  shows "calculatePixelDifference a b = NaN
         \<and> \<not> num_lt (calculatePixelDifference a b) x
         \<and> \<not> num_le (calculatePixelDifference a b) x
         \<and> \<not> num_le x (calculatePixelDifference a b)"
proof -
  have "calculatePixelDifference a b = NaN"
    using assms by (simp add: calculatePixelDifference_def Let_def)
  then show ?thesis by (cases x) simp_all
qed

theorem calculatePixelDifference_empty_witness:
  "min (length ([] :: int list)) (length [10, 20, 30 :: int]) = 0
   \<and> calculatePixelDifference [] [10, 20, 30] = NaN
   \<and> \<not> num_lt (calculatePixelDifference [] [10, 20, 30]) Infinity"
  using calculatePixelDifference_empty [of "[]" "[10, 20, 30]" Infinity]
  by simp

text \<open>The score of an empty fingerprint against a sampled row is \<open>NaN\<close>.\<close>

theorem empty_fingerprint_is_zero_by_zero:
  "calculatePixelDifference [] [10, 20, 30] = NaN"
  by (simp add: calculatePixelDifference_def)

section \<open>Blank rows and the tolerance\<close>

text \<open>
  For integer components the distance exceeds the tolerance exactly when the sum of the
  squared differences exceeds \<open>35\<^sup>2 = 1225\<close>. This is also the equation by which
  \<open>distExceeds\<close> is evaluated.
\<close>

lemma sqrt_gt_tolerance: "0 \<le> x \<Longrightarrow> sqrt x > 35 \<longleftrightarrow> x > 1225"
proof -
  have "sqrt 1225 = 35"
    by (rule real_sqrt_unique) simp_all
  then have "sqrt x > 35 \<longleftrightarrow> sqrt 1225 < sqrt x" by simp
  then show ?thesis by (simp only: real_sqrt_less_iff)
qed

lemma colorDistance_exceeds:
  "colorDistance (real_of_int r1) (real_of_int g1) (real_of_int b1)
                 (real_of_int r2) (real_of_int g2) (real_of_int b2) > BLANK_TOLERANCE
   \<longleftrightarrow> (r1 - r2) * (r1 - r2) + (g1 - g2) * (g1 - g2) + (b1 - b2) * (b1 - b2) > 1225"
proof -
  let ?s = "(r1 - r2) * (r1 - r2) + (g1 - g2) * (g1 - g2) + (b1 - b2) * (b1 - b2)"
  have nonneg: "0 \<le> real_of_int ?s" by simp
  have "colorDistance (real_of_int r1) (real_of_int g1) (real_of_int b1)
                 (real_of_int r2) (real_of_int g2) (real_of_int b2) = sqrt (real_of_int ?s)"
    by (simp add: colorDistance_def Let_def)
  then show ?thesis
    using sqrt_gt_tolerance [OF nonneg]
    by (simp only: BLANK_TOLERANCE_def) (metis of_int_less_iff of_int_numeral)
qed

lemma distExceeds_code [code]:
  "distExceeds rowData i =
     (i + 2 < length rowData \<and>
      (let dr = rowData ! 0 - rowData ! i;
           dg = rowData ! 1 - rowData ! (i + 1);
           db = rowData ! 2 - rowData ! (i + 2)
       in dr * dr + dg * dg + db * db > 1225))"
  unfolding distExceeds_def colorDistance_exceeds Let_def ..

lemma isRowBlankFrom_pixels:
  assumes "length rowData = 4 * w"
  shows "isRowBlankFrom rowData (4 * k) =
           (\<forall>p. k \<le> p \<and> p < w \<longrightarrow> \<not> distExceeds rowData (4 * p))"
proof (induction "w - k" arbitrary: k)
  case 0
  then have "\<not> 4 * k < length rowData" using assms by simp
  then have "isRowBlankFrom rowData (4 * k)"
    by (subst isRowBlankFrom.simps) simp
  with 0 show ?case by auto
next
  case (Suc d)
  then have k: "k < w" by simp
  then have inside: "4 * k < length rowData" using assms by simp
  from Suc have "d = w - Suc k" by simp
  from Suc.hyps(1) [OF this]
  have ih: "isRowBlankFrom rowData (4 * k + 4) =
              (\<forall>p. Suc k \<le> p \<and> p < w \<longrightarrow> \<not> distExceeds rowData (4 * p))"
    by (simp add: algebra_simps)
  have "isRowBlankFrom rowData (4 * k) =
          (\<not> distExceeds rowData (4 * k) \<and> isRowBlankFrom rowData (4 * k + 4))"
    using inside isRowBlankFrom.simps [of rowData "4 * k"]
    by (cases "distExceeds rowData (4 * k)") (simp_all only: if_True if_False simp_thms)
  also have "\<dots> = (\<forall>p. k \<le> p \<and> p < w \<longrightarrow> \<not> distExceeds rowData (4 * p))"
    unfolding ih
  proof
    assume l: "\<not> distExceeds rowData (4 * k) \<and>
               (\<forall>p. Suc k \<le> p \<and> p < w \<longrightarrow> \<not> distExceeds rowData (4 * p))"
    show "\<forall>p. k \<le> p \<and> p < w \<longrightarrow> \<not> distExceeds rowData (4 * p)"
    proof (intro allI impI)
      fix p
      assume "k \<le> p \<and> p < w"
      then consider "p = k" | "Suc k \<le> p \<and> p < w" by linarith
      then show "\<not> distExceeds rowData (4 * p)" using l by cases simp_all
    qed
  next
    assume "\<forall>p. k \<le> p \<and> p < w \<longrightarrow> \<not> distExceeds rowData (4 * p)"
    with k show "\<not> distExceeds rowData (4 * k) \<and>
               (\<forall>p. Suc k \<le> p \<and> p < w \<longrightarrow> \<not> distExceeds rowData (4 * p))"
      by simp
  qed
  finally show ?case .
qed

lemma distExceeds_first: "\<not> distExceeds rowData 0"
  by (simp add: distExceeds_def colorDistance_def BLANK_TOLERANCE_def numeral_2_eq_2)

text \<open>
  Claim C7. For a row of \<open>w\<close> pixels (four bytes each), \<open>isRowBlank\<close> is true if and
  only if every pixel of the row has Euclidean RGB distance at most 35 from the first pixel
  of the row: a distance of exactly 35 still counts as blank, only a larger one does not.
\<close>

theorem isRowBlank_iff:
  assumes "length rowData = 4 * w"
  shows "isRowBlank rowData \<longleftrightarrow>
           (\<forall>p < w. colorDistance (real_of_int (rowData ! 0)) (real_of_int (rowData ! 1))
                                 (real_of_int (rowData ! 2))
                                 (real_of_int (rowData ! (4 * p)))
                                 (real_of_int (rowData ! (4 * p + 1)))
                                 (real_of_int (rowData ! (4 * p + 2)))
                      \<le> BLANK_TOLERANCE)"
proof -
  have in_range: "4 * p + 2 < length rowData" if "p < w" for p
    using that assms by simp
  have "isRowBlank rowData = (\<forall>p. 1 \<le> p \<and> p < w \<longrightarrow> \<not> distExceeds rowData (4 * p))"
    using isRowBlankFrom_pixels [OF assms, of 1] by (simp add: isRowBlank_def)
  also have "\<dots> = (\<forall>p < w. \<not> distExceeds rowData (4 * p))"
  proof
    assume l: "\<forall>p. 1 \<le> p \<and> p < w \<longrightarrow> \<not> distExceeds rowData (4 * p)"
    show "\<forall>p < w. \<not> distExceeds rowData (4 * p)"
    proof (intro allI impI)
      fix p
      assume "p < w"
      show "\<not> distExceeds rowData (4 * p)"
      proof (cases "p = 0")
        case True
        then show ?thesis using distExceeds_first [of rowData] by simp
      next
        case False
        then have "1 \<le> p \<and> p < w" using \<open>p < w\<close> by simp
        with l show ?thesis by blast
      qed
    qed
  next
    assume "\<forall>p < w. \<not> distExceeds rowData (4 * p)"
    then show "\<forall>p. 1 \<le> p \<and> p < w \<longrightarrow> \<not> distExceeds rowData (4 * p)"
      by simp
  qed
  also have "\<dots> = (\<forall>p < w. colorDistance (real_of_int (rowData ! 0)) (real_of_int (rowData ! 1))
                                 (real_of_int (rowData ! 2))
                                 (real_of_int (rowData ! (4 * p)))
                                 (real_of_int (rowData ! (4 * p + 1)))
                                 (real_of_int (rowData ! (4 * p + 2)))
                      \<le> BLANK_TOLERANCE)"
    using in_range by (auto simp: distExceeds_def not_less)
  finally show ?thesis .
qed

text \<open>
  A pixel at distance exactly 35 leaves the row blank; one at distance \<open>sqrt 1226\<close> does
  not.
\<close>

lemma sqrt_1225: "sqrt 1225 = 35"
  by (rule real_sqrt_unique) simp_all

theorem isRowBlank_iff_witness:
  "length [0, 0, 0, 255, 35, 0, 0, 255 :: int] = 4 * 2
   \<and> colorDistance 0 0 0 35 0 0 = 35
   \<and> isRowBlank [0, 0, 0, 255, 35, 0, 0, 255]
   \<and> length [0, 0, 0, 255, 21, 28, 1, 255 :: int] = 4 * 2
   \<and> \<not> isRowBlank [0, 0, 0, 255, 21, 28, 1, 255]"
proof -
  let ?near = "[0, 0, 0, 255, 35, 0, 0, 255] :: int list"
  let ?far = "[0, 0, 0, 255, 21, 28, 1, 255] :: int list"
  have len: "length ?near = 4 * 2" "length ?far = 4 * 2" by simp_all
  have d35: "colorDistance 0 0 0 35 0 0 = 35"
    by (simp add: colorDistance_def sqrt_1225)
  have d0: "colorDistance 0 0 0 0 0 0 = 0"
    by (simp add: colorDistance_def)
  have "isRowBlank ?near"
    unfolding isRowBlank_iff [OF len(1)]
    by (simp add: less_Suc_eq numeral_2_eq_2 d35 d0 BLANK_TOLERANCE_def all_conj_distrib)
  moreover have "\<not> isRowBlank ?far"
  proof
    assume "isRowBlank ?far"
    with isRowBlank_iff [OF len(2)]
    have "1 < (2 :: nat) \<longrightarrow>
            colorDistance (real_of_int (?far ! 0)) (real_of_int (?far ! 1))
              (real_of_int (?far ! 2)) (real_of_int (?far ! (4 * 1)))
              (real_of_int (?far ! (4 * 1 + 1))) (real_of_int (?far ! (4 * 1 + 2)))
            \<le> BLANK_TOLERANCE"
      by blast
    then have "colorDistance 0 0 0 21 28 1 \<le> BLANK_TOLERANCE"
      by simp
    moreover have "colorDistance 0 0 0 21 28 1 = sqrt 1226"
      by (simp add: colorDistance_def)
    moreover have "sqrt 1225 < sqrt 1226" by (rule real_sqrt_less_mono) simp
    ultimately show False by (simp add: BLANK_TOLERANCE_def sqrt_1225)
  qed
  ultimately show ?thesis using len d35 by blast
qed

section \<open>The letterbox scan\<close>

lemma maxLetterboxRows_div: "maxLetterboxRows h = min (int h div 10) 50"
proof -
  have "\<lfloor>real h * (1 / 10)\<rfloor> = \<lfloor>real h / real 10\<rfloor>" by simp
  also have "\<dots> = int (h div 10)" by (rule floor_divide_of_nat_eq)
  also have "\<dots> = int h div 10" by (simp add: zdiv_int)
  finally show ?thesis by (simp add: maxLetterboxRows_def)
qed

lemma topScan_find:
  "topScan img maxRows y t =
     (case find (\<lambda>r. \<not> isRowBlank (imageData img r)) [y..maxRows - 1] of
        Some r \<Rightarrow> r
      | None \<Rightarrow> if y < maxRows then maxRows else t)"
proof (induction img maxRows y t rule: topScan.induct)
  case (1 img maxRows y t)
  show ?case
  proof (cases "y < maxRows")
    case False
    then have "[y..maxRows - 1] = []" by simp
    with False show ?thesis by (subst topScan.simps) simp
  next
    case True
    then have range: "[y..maxRows - 1] = y # [y + 1..maxRows - 1]"
      by (simp add: upto_rec1)
    show ?thesis
    proof (cases "isRowBlank (imageData img y)")
      case False
      with True range show ?thesis by (subst topScan.simps) simp
    next
      case blank: True
      have "topScan img maxRows y t = topScan img maxRows (y + 1) (y + 1)"
        using True blank by (subst topScan.simps) simp
      also note "1.IH" [OF True _]
      finally show ?thesis
        using True blank range by (auto split: option.splits)
    qed
  qed
qed

lemma bottomScan_find:
  "bottomScan img lowest y b =
     (case find (\<lambda>r. \<not> isRowBlank (imageData img r)) (rev [lowest..y]) of
        Some r \<Rightarrow> r
      | None \<Rightarrow> if y \<ge> lowest then lowest - 1 else b)"
proof (induction img lowest y b rule: bottomScan.induct)
  case (1 img lowest y b)
  show ?case
  proof (cases "y \<ge> lowest")
    case False
    then have "[lowest..y] = []" by simp
    with False show ?thesis by (subst bottomScan.simps) simp
  next
    case True
    then have range: "rev [lowest..y] = y # rev [lowest..y - 1]"
      by (simp add: upto_rec2)
    show ?thesis
    proof (cases "isRowBlank (imageData img y)")
      case False
      with True range show ?thesis by (subst bottomScan.simps) simp
    next
      case blank: True
      have "bottomScan img lowest y b = bottomScan img lowest (y - 1) (y - 1)"
        using True blank by (subst bottomScan.simps) simp
      also note "1.IH" [OF True _]
      finally show ?thesis
        using True blank range by (auto split: option.splits)
    qed
  qed
qed

lemma getEdgePixels_topY:
  "topY (getEdgePixels img) =
     (case find (\<lambda>y. \<not> isRowBlank (imageData img y))
                [0..min (int (naturalHeight img) div 10) 50 - 1] of
        Some y \<Rightarrow> y
      | None \<Rightarrow> min (int (naturalHeight img) div 10) 50)"
  by (simp add: getEdgePixels_def Let_def maxLetterboxRows_div topScan_find
        split: option.splits)

lemma getEdgePixels_bottomY:
  "bottomY (getEdgePixels img) =
     (case find (\<lambda>y. \<not> isRowBlank (imageData img y))
                (rev [int (naturalHeight img) - min (int (naturalHeight img) div 10) 50
                      ..int (naturalHeight img) - 1]) of
        Some y \<Rightarrow> y
      | None \<Rightarrow> int (naturalHeight img) - 1 - min (int (naturalHeight img) div 10) 50)"
  by (simp add: getEdgePixels_def Let_def maxLetterboxRows_div bottomScan_find
        split: option.splits)

lemma getEdgePixels_flags:
  "hasBlankTop (getEdgePixels img) = (topY (getEdgePixels img) > 0)"
  "hasBlankBottom (getEdgePixels img) =
     (bottomY (getEdgePixels img) < int (naturalHeight img) - 1)"
  by (simp_all add: getEdgePixels_def Let_def)

text \<open>
  Claim C6. For an image of height \<open>h\<close> the scan window is
  \<open>W = min (floor (h * 0.1)) 50\<close>, that is \<open>min (h div 10) 50\<close>. The content-top row
  recorded by \<open>getEdgePixels\<close> is the first row among \<open>0, \<dots>, W - 1\<close> that is not
  blank, or \<open>W\<close> if all of them are blank; the content-bottom row is the first row that
  is not blank when going up from \<open>h - 1\<close> to \<open>h - W\<close>, or \<open>h - 1 - W\<close> if all of them
  are blank. \<open>hasBlankTop\<close> holds iff the content-top row is greater than 0, and
  \<open>hasBlankBottom\<close> iff the content-bottom row is less than \<open>h - 1\<close>. (The statement
  holds for every height, also 0.)
\<close>

theorem getEdgePixels_scan:
  "(let h = int (naturalHeight img);
        W = min (h div 10) 50;
        content = (\<lambda>y. \<not> isRowBlank (imageData img y));
        sig = getEdgePixels img
    in maxLetterboxRows (naturalHeight img) = W
       \<and> topY sig = (case find content [0..W - 1] of Some y \<Rightarrow> y | None \<Rightarrow> W)
       \<and> bottomY sig =
           (case find content (rev [h - W..h - 1]) of Some y \<Rightarrow> y | None \<Rightarrow> h - 1 - W)
       \<and> hasBlankTop sig = (topY sig > 0)
       \<and> hasBlankBottom sig = (bottomY sig < h - 1))"
  unfolding Let_def
  using maxLetterboxRows_div [of "naturalHeight img"] getEdgePixels_topY [of img]
    getEdgePixels_bottomY [of img] getEdgePixels_flags [of img]
  by blast

theorem getEdgePixels_scan_witness:
  "maxLetterboxRows (naturalHeight imgBothBlank) = 1
   \<and> topY (getEdgePixels imgBothBlank) = 1
   \<and> bottomY (getEdgePixels imgBothBlank) = 8
   \<and> hasBlankTop (getEdgePixels imgBothBlank)
   \<and> hasBlankBottom (getEdgePixels imgBothBlank)
   \<and> topY (getEdgePixels imgPlain) = 0
   \<and> bottomY (getEdgePixels imgPlain) = 9
   \<and> \<not> hasBlankTop (getEdgePixels imgPlain)
   \<and> \<not> hasBlankBottom (getEdgePixels imgPlain)"
proof -
  have h: "naturalHeight imgBothBlank = 10" "naturalHeight imgPlain = 10"
    by (simp_all add: imgBothBlank_def imgPlain_def)
  have w: "min (int 10 div 10) 50 = 1" by simp
  have rows: "[0..1 - 1] = [0]" "rev [int 10 - 1..int 10 - 1] = [9]"
    by (simp_all add: upto_rec1)
  have blank: "isRowBlank (imageData imgBothBlank 0)" "isRowBlank (imageData imgBothBlank 9)"
    by code_simp+
  have content: "\<not> isRowBlank (imageData imgPlain 0)" "\<not> isRowBlank (imageData imgPlain 9)"
    by code_simp+
  from getEdgePixels_scan [of imgBothBlank, unfolded Let_def] blank
  have "maxLetterboxRows (naturalHeight imgBothBlank) = 1
   \<and> topY (getEdgePixels imgBothBlank) = 1
   \<and> bottomY (getEdgePixels imgBothBlank) = 8
   \<and> hasBlankTop (getEdgePixels imgBothBlank)
   \<and> hasBlankBottom (getEdgePixels imgBothBlank)"
    by (simp add: h w rows Let_def)
  moreover from getEdgePixels_scan [of imgPlain, unfolded Let_def] content
  have "topY (getEdgePixels imgPlain) = 0
   \<and> bottomY (getEdgePixels imgPlain) = 9
   \<and> \<not> hasBlankTop (getEdgePixels imgPlain)
   \<and> \<not> hasBlankBottom (getEdgePixels imgPlain)"
    by (simp add: h w rows Let_def)
  ultimately show ?thesis by blast
qed

section \<open>Classification\<close>

lemma lastWhere_0: "lastWhere P 0 = None"
  by (simp add: lastWhere_def)

lemma lastWhere_Suc: "lastWhere P (Suc n) = (if P n then Some n else lastWhere P n)"
proof (cases "P n")
  case True
  have "Max {i. i < Suc n \<and> P i} = n"
    by (rule Max_eqI) (use True in auto)
  with True show ?thesis by (auto simp: lastWhere_def)
next
  case False
  then have "{i. i < Suc n \<and> P i} = {i. i < n \<and> P i}"
    using less_Suc_eq by auto
  moreover from False have "(\<exists>i<Suc n. P i) = (\<exists>i<n. P i)"
    using less_Suc_eq by auto
  ultimately show ?thesis using False by (simp add: lastWhere_def)
qed

lemma classify_prefix:
  "fold (classifyStep edgeData) [0..<n] (None, None, []) =
     (lastWhere (firstCandidate edgeData) n, lastWhere (lastCandidate edgeData) n,
      filter (floating edgeData) [0..<n])"
proof (induction n)
  case 0
  show ?case by (simp add: lastWhere_0)
next
  case (Suc n)
  then show ?case
    by (simp add: lastWhere_Suc classifyStep_def firstCandidate_def lastCandidate_def
          floating_def)
qed

lemma classify_eq:
  "classify edgeData =
     (lastWhere (firstCandidate edgeData) (length edgeData),
      lastWhere (lastCandidate edgeData) (length edgeData),
      filter (floating edgeData) [0..<length edgeData])"
  by (simp add: classify_def classify_prefix)

text \<open>
  Claim C5. When several indices qualify as candidates for the first place (blank top, no
  blank bottom), the anchor \<open>firstIdx\<close> that the classification loop ends with is the
  largest of them, later matches overwriting earlier ones; it is \<open>None\<close> (the source's
  \<open>-1\<close>) when no index qualifies. The same holds for \<open>lastIdx\<close> among the indices with
  blank bottom and no blank top.
\<close>

theorem classify_last_wins:
  "fst (classify edgeData) =
     (if \<exists>i<length edgeData. hasBlankTop (edgeData ! i) \<and> \<not> hasBlankBottom (edgeData ! i)
      then Some (Max {i. i < length edgeData \<and>
                         hasBlankTop (edgeData ! i) \<and> \<not> hasBlankBottom (edgeData ! i)})
      else None)
   \<and> fst (snd (classify edgeData)) =
     (if \<exists>i<length edgeData. hasBlankBottom (edgeData ! i) \<and> \<not> hasBlankTop (edgeData ! i)
      then Some (Max {i. i < length edgeData \<and>
                         hasBlankBottom (edgeData ! i) \<and> \<not> hasBlankTop (edgeData ! i)})
      else None)"
  by (simp only: classify_eq fst_conv snd_conv lastWhere_def firstCandidate_def
        lastCandidate_def simp_thms)

theorem classify_last_wins_witness:
  "fst (classify twoCandidates) = Some 2
   \<and> Max {i. i < length twoCandidates \<and> hasBlankTop (twoCandidates ! i)
                \<and> \<not> hasBlankBottom (twoCandidates ! i)} = 2
   \<and> fst (snd (classify twoCandidates)) = Some 3
   \<and> Max {i. i < length twoCandidates \<and> hasBlankBottom (twoCandidates ! i)
                \<and> \<not> hasBlankTop (twoCandidates ! i)} = 3
   \<and> hasBlankTop (twoCandidates ! 0) \<and> \<not> hasBlankBottom (twoCandidates ! 0)
   \<and> hasBlankBottom (twoCandidates ! 1) \<and> \<not> hasBlankTop (twoCandidates ! 1)"
proof -
  have c: "classify twoCandidates = (Some 2, Some 3, [])" by code_simp
  have flags: "hasBlankTop (twoCandidates ! 0) \<and> \<not> hasBlankBottom (twoCandidates ! 0)
     \<and> hasBlankBottom (twoCandidates ! 1) \<and> \<not> hasBlankTop (twoCandidates ! 1)"
    by code_simp
  from classify_last_wins [of twoCandidates] c
  have "Max {i. i < length twoCandidates \<and> hasBlankTop (twoCandidates ! i)
                \<and> \<not> hasBlankBottom (twoCandidates ! i)} = 2"
    and "Max {i. i < length twoCandidates \<and> hasBlankBottom (twoCandidates ! i)
                \<and> \<not> hasBlankTop (twoCandidates ! i)} = 3"
    by (simp_all split: if_splits)
  with c flags show ?thesis by simp
qed

section \<open>The anchored path\<close>

lemma lastWhere_Some:
  assumes "lastWhere P n = Some i"
  shows "i < n \<and> P i \<and> (\<forall>j<n. P j \<longrightarrow> j \<le> i)"
proof -
  let ?S = "{j. j < n \<and> P j}"
  from assms have ex: "\<exists>j<n. P j" and i: "i = Max ?S"
    by (auto simp: lastWhere_def split: if_splits)
  have fin: "finite ?S" by simp
  from ex have ne: "?S \<noteq> {}" by auto
  from Max_in [OF fin ne] i have "i \<in> ?S" by simp
  moreover have "j \<le> i" if "j < n" "P j" for j
    using Max_ge [OF fin, of j] that i by simp
  ultimately show ?thesis by auto
qed

lemma finalOrder_anchored:
  assumes "classify edgeData = (Some f, Some l, fl)" and "f \<noteq> l"
  shows "finalOrder edgeData =
           anchoredBase edgeData f l (middleIndices (length edgeData) f l fl) @ fl"
  using assms by (simp add: finalOrder_def anchored_def)

lemma finalOrder_fallback:
  assumes "classify edgeData = (fi, la, fl)" and "\<not> anchored fi la"
  shows "finalOrder edgeData = fallbackBest edgeData (nonFloating (length edgeData) fl) @ fl"
  using assms by (simp add: finalOrder_def)

lemma anchoredBase_cases:
  "anchoredBase edgeData f l [] = [f, l]"
  "anchoredBase edgeData f l [m] = [f, m, l]"
  "anchoredBase edgeData f l (m0 # m1 # ms) =
     (if num_le (score3 edgeData f m0 m1 l) (score3 edgeData f m1 m0 l)
      then [f, m0, m1, l] else [f, m1, m0, l])"
  by (simp_all add: anchoredBase_def Let_def)

lemma num_lt_le: "num_lt a b \<Longrightarrow> num_le a b"
  by (cases a; cases b) simp_all

lemma num_lt_not_le: "num_lt b a \<Longrightarrow> \<not> num_le a b"
  by (cases a; cases b) simp_all

lemma num_le_refl: "a \<noteq> NaN \<Longrightarrow> num_le a a"
  by (cases a) simp_all

lemma middleIndices_sorted: "sorted_wrt (<) (middleIndices n f l fl)"
  by (simp add: middleIndices_def sorted_wrt_filter)

text \<open>
  Claim C3. On the anchored path (distinct \<open>firstIdx = f\<close> and \<open>lastIdx = l\<close> found, the
  floating indices being \<open>fl\<close>, which are appended to the base order): with no middle
  index the base order is \<open>[f, l]\<close>; with one middle index \<open>m\<close> it is \<open>[f, m, l]\<close>; with
  exactly two middle indices \<open>m0 < m1\<close> the orders \<open>[f, m0, m1, l]\<close> and
  \<open>[f, m1, m0, l]\<close> are each scored by the sum of their three adjacent-pair differences,
  the order with the lower score is chosen and an exact tie keeps \<open>[f, m0, m1, l]\<close>.
  The scores are the doubles that the code adds up, in its order of addition. Hence three
  images with blank top only, no blank edge and blank bottom only, in this
  order, give \<open>[0, 1, 2]\<close>.
\<close>

theorem anchored_base_order:
  "(classify edgeData = (Some f, Some l, fl) \<and> f \<noteq> l
      \<and> middleIndices (length edgeData) f l fl = []
    \<longrightarrow> finalOrder edgeData = [f, l] @ fl)
   \<and> (classify edgeData = (Some f, Some l, fl) \<and> f \<noteq> l
      \<and> middleIndices (length edgeData) f l fl = [m]
    \<longrightarrow> finalOrder edgeData = [f, m, l] @ fl)
   \<and> (classify edgeData = (Some f, Some l, fl) \<and> f \<noteq> l
      \<and> middleIndices (length edgeData) f l fl = [m0, m1]
    \<longrightarrow> m0 < m1
        \<and> score3 edgeData f m0 m1 l =
            num_add (num_add (pairDiff edgeData f m0) (pairDiff edgeData m0 m1))
                    (pairDiff edgeData m1 l)
        \<and> score3 edgeData f m1 m0 l =
            num_add (num_add (pairDiff edgeData f m1) (pairDiff edgeData m1 m0))
                    (pairDiff edgeData m0 l)
        \<and> (num_lt (score3 edgeData f m0 m1 l) (score3 edgeData f m1 m0 l)
             \<longrightarrow> finalOrder edgeData = [f, m0, m1, l] @ fl)
        \<and> (num_lt (score3 edgeData f m1 m0 l) (score3 edgeData f m0 m1 l)
             \<longrightarrow> finalOrder edgeData = [f, m1, m0, l] @ fl)
        \<and> (score3 edgeData f m0 m1 l = score3 edgeData f m1 m0 l
             \<and> score3 edgeData f m0 m1 l \<noteq> NaN
             \<longrightarrow> finalOrder edgeData = [f, m0, m1, l] @ fl))
   \<and> (length edgeData = 3
      \<and> hasBlankTop (edgeData ! 0) \<and> \<not> hasBlankBottom (edgeData ! 0)
      \<and> \<not> hasBlankTop (edgeData ! 1) \<and> \<not> hasBlankBottom (edgeData ! 1)
      \<and> \<not> hasBlankTop (edgeData ! 2) \<and> hasBlankBottom (edgeData ! 2)
    \<longrightarrow> finalOrder edgeData = [0, 1, 2])"
proof (intro conjI impI; (elim conjE)?)
  assume "classify edgeData = (Some f, Some l, fl)" "f \<noteq> l"
    "middleIndices (length edgeData) f l fl = []"
  then show "finalOrder edgeData = [f, l] @ fl"
    by (simp add: finalOrder_anchored anchoredBase_cases)
next
  assume "classify edgeData = (Some f, Some l, fl)" "f \<noteq> l"
    "middleIndices (length edgeData) f l fl = [m]"
  then show "finalOrder edgeData = [f, m, l] @ fl"
    by (simp add: finalOrder_anchored anchoredBase_cases)
next
  assume "middleIndices (length edgeData) f l fl = [m0, m1]"
  with middleIndices_sorted [of "length edgeData" f l fl] show "m0 < m1" by simp
next
  show "score3 edgeData f m0 m1 l =
            num_add (num_add (pairDiff edgeData f m0) (pairDiff edgeData m0 m1))
                    (pairDiff edgeData m1 l)"
    by (simp add: score3_def)
next
  show "score3 edgeData f m1 m0 l =
            num_add (num_add (pairDiff edgeData f m1) (pairDiff edgeData m1 m0))
                    (pairDiff edgeData m0 l)"
    by (simp add: score3_def)
next
  assume "classify edgeData = (Some f, Some l, fl)" "f \<noteq> l"
    "middleIndices (length edgeData) f l fl = [m0, m1]"
    "num_lt (score3 edgeData f m0 m1 l) (score3 edgeData f m1 m0 l)"
  then show "finalOrder edgeData = [f, m0, m1, l] @ fl"
    by (simp add: finalOrder_anchored anchoredBase_cases num_lt_le)
next
  assume "classify edgeData = (Some f, Some l, fl)" "f \<noteq> l"
    "middleIndices (length edgeData) f l fl = [m0, m1]"
    "num_lt (score3 edgeData f m1 m0 l) (score3 edgeData f m0 m1 l)"
  then show "finalOrder edgeData = [f, m1, m0, l] @ fl"
    by (simp add: finalOrder_anchored anchoredBase_cases num_lt_not_le)
next
  assume "classify edgeData = (Some f, Some l, fl)" "f \<noteq> l"
    "middleIndices (length edgeData) f l fl = [m0, m1]"
    "score3 edgeData f m0 m1 l = score3 edgeData f m1 m0 l"
    "score3 edgeData f m0 m1 l \<noteq> NaN"
  then show "finalOrder edgeData = [f, m0, m1, l] @ fl"
    using num_le_refl [of "score3 edgeData f m0 m1 l"]
    by (simp add: finalOrder_anchored anchoredBase_cases)
next
  assume len: "length edgeData = 3"
    and flags: "hasBlankTop (edgeData ! 0)" "\<not> hasBlankBottom (edgeData ! 0)"
      "\<not> hasBlankTop (edgeData ! 1)" "\<not> hasBlankBottom (edgeData ! 1)"
      "\<not> hasBlankTop (edgeData ! 2)" "hasBlankBottom (edgeData ! 2)"
  have upt: "[0..<3] = [0, 1, 2]" by (simp add: upt_rec)
  have "classify edgeData = (Some 0, Some 2, [])"
    using flags by (simp add: classify_def len upt classifyStep_def)
  then have "finalOrder edgeData =
               anchoredBase edgeData 0 2 (middleIndices (length edgeData) 0 2 []) @ []"
    by (rule finalOrder_anchored) simp
  also have "middleIndices (length edgeData) 0 2 [] = [1]"
    by (simp add: middleIndices_def len upt)
  finally show "finalOrder edgeData = [0, 1, 2]"
    by (simp add: anchoredBase_cases)
qed

theorem anchored_base_order_witness:
  "classify anchoredFour = (Some 0, Some 3, [])
   \<and> middleIndices (length anchoredFour) 0 3 [] = [1, 2]
   \<and> score3 anchoredFour 0 1 2 3 = Num 9600
   \<and> score3 anchoredFour 0 2 1 3 = Num 0
   \<and> finalOrder anchoredFour = [0, 2, 1, 3]
   \<and> classify tieFour = (Some 0, Some 3, [])
   \<and> middleIndices (length tieFour) 0 3 [] = [1, 2]
   \<and> score3 tieFour 0 1 2 3 = Num (7505999378950827 / 4503599627370496)
   \<and> score3 tieFour 0 2 1 3 = Num (7505999378950826 / 4503599627370496)
   \<and> finalOrder tieFour = [0, 2, 1, 3]
   \<and> finalOrder scenarioA = [0, 1, 2]"
proof -
  have ne: "(0 :: nat) \<noteq> 3" by simp
  have c: "classify anchoredFour = (Some 0, Some 3, [])" by code_simp
  have m: "middleIndices (length anchoredFour) 0 3 [] = [1, 2]" by code_simp
  have s1: "score3 anchoredFour 0 1 2 3 = Num 9600" by code_simp
  have s2: "score3 anchoredFour 0 2 1 3 = Num 0" by code_simp
  have lt: "num_lt (score3 anchoredFour 0 2 1 3) (score3 anchoredFour 0 1 2 3)"
    unfolding s1 s2 by simp
  have "finalOrder anchoredFour = [0, 2, 1, 3] @ []"
    using anchored_base_order [of anchoredFour 0 3 "[]" 0 1 2] c m lt ne by blast
  then have first: "finalOrder anchoredFour = [0, 2, 1, 3]" by simp
  have c': "classify tieFour = (Some 0, Some 3, [])" by code_simp
  have m': "middleIndices (length tieFour) 0 3 [] = [1, 2]" by code_simp
  have s1': "score3 tieFour 0 1 2 3 = Num (7505999378950827 / 4503599627370496)"
    by code_simp
  have s2': "score3 tieFour 0 2 1 3 = Num (7505999378950826 / 4503599627370496)"
    by code_simp
  have lt': "num_lt (score3 tieFour 0 2 1 3) (score3 tieFour 0 1 2 3)"
    unfolding s1' s2' by simp
  have "finalOrder tieFour = [0, 2, 1, 3] @ []"
    using anchored_base_order [of tieFour 0 3 "[]" 0 1 2] c' m' lt' ne by blast
  then have second: "finalOrder tieFour = [0, 2, 1, 3]" by simp
  have "length scenarioA = 3
      \<and> hasBlankTop (scenarioA ! 0) \<and> \<not> hasBlankBottom (scenarioA ! 0)
      \<and> \<not> hasBlankTop (scenarioA ! 1) \<and> \<not> hasBlankBottom (scenarioA ! 1)
      \<and> \<not> hasBlankTop (scenarioA ! 2) \<and> hasBlankBottom (scenarioA ! 2)"
    by code_simp
  then have third: "finalOrder scenarioA = [0, 1, 2]"
    using anchored_base_order [of scenarioA] by blast
  from c m s1 s2 first c' m' s1' s2' second third show ?thesis by blast
qed

section \<open>Floating images come last\<close>

lemma search_member:
  "fst (fold (searchStep edgeData) ps (b, s)) \<in> insert b (set ps)"
proof (induction ps arbitrary: b s)
  case Nil
  show ?case by simp
next
  case (Cons p ps)
  show ?case
  proof (cases "num_lt (permScore edgeData p) s")
    case True
    then have "fold (searchStep edgeData) (p # ps) (b, s) =
                 fold (searchStep edgeData) ps (p, permScore edgeData p)"
      by (simp add: searchStep_def Let_def)
    with Cons.IH [of p "permScore edgeData p"] show ?thesis by auto
  next
    case False
    then have "fold (searchStep edgeData) (p # ps) (b, s) =
                 fold (searchStep edgeData) ps (b, s)"
      by (simp add: searchStep_def Let_def)
    with Cons.IH [of b s] show ?thesis by auto
  qed
qed

lemma fallbackBest_mset: "mset (fallbackBest edgeData indices) = mset indices"
proof -
  have "fallbackBest edgeData indices \<in> insert indices (set (getPermutations indices))"
    unfolding fallbackBest_def by (rule search_member)
  then show ?thesis using getPermutations_mset by auto
qed

lemma anchoredBase_subset:
  "set (anchoredBase edgeData f l middle) \<subseteq> {f, l} \<union> set middle"
proof (cases middle)
  case Nil
  then show ?thesis by (simp add: anchoredBase_cases)
next
  case (Cons m0 ms)
  then show ?thesis
    by (cases ms) (auto simp: anchoredBase_cases)
qed

lemma classify_anchor_facts:
  assumes "classify edgeData = (fi, la, fl)"
  shows "fl = filter (floating edgeData) [0..<length edgeData]"
    and "fi = Some f \<Longrightarrow> f < length edgeData \<and> firstCandidate edgeData f"
    and "la = Some l \<Longrightarrow> l < length edgeData \<and> lastCandidate edgeData l"
  using assms lastWhere_Some [of "firstCandidate edgeData" "length edgeData" f]
    lastWhere_Some [of "lastCandidate edgeData" "length edgeData" l]
  by (auto simp: classify_eq)

text \<open>
  Claim C4. For every input the floating indices (both flags true) occupy exactly the
  trailing positions of the returned order, in ascending index order, on the anchored and
  on the fallback path alike: the order is a base order of non-floating indices followed by
  the ascending list of the floating ones. No score enters the statement.
\<close>

theorem floating_trail:
  "\<exists>base. finalOrder edgeData = base @ filter (floating edgeData) [0..<length edgeData]
          \<and> (\<forall>i \<in> set base. i < length edgeData \<and> \<not> floating edgeData i)
          \<and> sorted_wrt (<) (filter (floating edgeData) [0..<length edgeData])"
proof -
  let ?n = "length edgeData"
  let ?fl = "filter (floating edgeData) [0..<?n]"
  obtain fi la fl where c: "classify edgeData = (fi, la, fl)"
    by (cases "classify edgeData") auto
  note facts = classify_anchor_facts [OF c]
  have fl: "fl = ?fl" by (rule facts(1))
  have sorted: "sorted_wrt (<) ?fl" by (simp add: sorted_wrt_filter)
  show ?thesis
  proof (cases "anchored fi la")
    case True
    then obtain f l where fi: "fi = Some f" and la: "la = Some l" and "f \<noteq> l"
      by (auto simp: anchored_def)
    let ?mid = "middleIndices ?n f l fl"
    let ?base = "anchoredBase edgeData f l ?mid"
    have order: "finalOrder edgeData = ?base @ ?fl"
      using finalOrder_anchored [of edgeData f l fl] c fi la \<open>f \<noteq> l\<close> fl by simp
    have f: "f < ?n \<and> \<not> floating edgeData f"
      using facts(2) [OF fi] by (auto simp: firstCandidate_def floating_def)
    have l: "l < ?n \<and> \<not> floating edgeData l"
      using facts(3) [OF la] by (auto simp: lastCandidate_def floating_def)
    have mid: "i < ?n \<and> \<not> floating edgeData i" if "i \<in> set ?mid" for i
      using that fl by (auto simp: middleIndices_def)
    have "i < ?n \<and> \<not> floating edgeData i" if "i \<in> set ?base" for i
      using that anchoredBase_subset [of edgeData f l ?mid] f l mid by blast
    with order sorted show ?thesis by blast
  next
    case False
    let ?base = "fallbackBest edgeData (nonFloating ?n fl)"
    have order: "finalOrder edgeData = ?base @ ?fl"
      using finalOrder_fallback [OF c False] fl by simp
    have "set ?base = set (nonFloating ?n fl)"
      using fallbackBest_mset [of edgeData "nonFloating ?n fl"] by (rule mset_eq_setD)
    then have "i < ?n \<and> \<not> floating edgeData i" if "i \<in> set ?base" for i
      using that fl by (auto simp: nonFloating_def)
    with order sorted show ?thesis by blast
  qed
qed

theorem floating_trail_witness:
  "filter (floating scenarioC) [0..<length scenarioC] = [1, 3]
   \<and> finalOrder scenarioC = [0, 2] @ [1, 3]
   \<and> \<not> floating scenarioC 0 \<and> \<not> floating scenarioC 2"
proof -
  have fl: "filter (floating scenarioC) [0..<length scenarioC] = [1, 3]" by code_simp
  have order: "finalOrder scenarioC = [0, 2, 1, 3]" by code_simp
  from floating_trail [of scenarioC] obtain base where
    "finalOrder scenarioC = base @ filter (floating scenarioC) [0..<length scenarioC]"
    and rest: "\<forall>i \<in> set base. i < length scenarioC \<and> \<not> floating scenarioC i"
    by blast
  then have "base = [0, 2]" by (simp add: fl order)
  with rest have "\<not> floating scenarioC 0 \<and> \<not> floating scenarioC 2" by simp
  with fl order show ?thesis by simp
qed

section \<open>The returned order as a permutation\<close>

text \<open>
  On the fallback path, and on the anchored path with at most two middle indices, the
  returned order contains every index below the number of images exactly once.
\<close>

lemma nonFloating_eq:
  "nonFloating (length edgeData) (filter (floating edgeData) [0..<length edgeData]) =
     filter (\<lambda>i. \<not> floating edgeData i) [0..<length edgeData]"
  unfolding nonFloating_def by (rule filter_cong) auto

lemma anchoredBase_mset:
  assumes "length middle \<le> 2"
  shows "mset (anchoredBase edgeData f l middle) = {#f, l#} + mset middle"
proof (cases middle)
  case Nil
  then show ?thesis by (simp add: anchoredBase_cases)
next
  case (Cons m0 ms)
  show ?thesis
  proof (cases ms)
    case Nil
    with Cons show ?thesis by (simp add: anchoredBase_cases)
  next
    case (Cons m1 rest)
    with assms \<open>middle = m0 # ms\<close> have "rest = []" by simp
    with Cons \<open>middle = m0 # ms\<close> show ?thesis by (simp add: anchoredBase_cases)
  qed
qed

lemma mset_filter_split: "mset (filter (\<lambda>x. \<not> P x) xs) + mset (filter P xs) = mset xs"
  by (induction xs) simp_all

lemma finalOrder_permutation:
  assumes c: "classify edgeData = (fi, la, fl)"
    and few: "anchored fi la \<longrightarrow>
                length (middleIndices (length edgeData) (the fi) (the la) fl) \<le> 2"
  shows "mset (finalOrder edgeData) = mset [0..<length edgeData]"
proof -
  let ?n = "length edgeData"
  note facts = classify_anchor_facts [OF c]
  have fl: "fl = filter (floating edgeData) [0..<?n]" by (rule facts(1))
  show ?thesis
  proof (cases "anchored fi la")
    case False
    have "mset (finalOrder edgeData) =
            mset (filter (\<lambda>i. \<not> floating edgeData i) [0..<?n])
            + mset (filter (floating edgeData) [0..<?n])"
      using finalOrder_fallback [OF c False] fallbackBest_mset nonFloating_eq [of edgeData]
      by (simp add: fl)
    then show ?thesis by (simp only: mset_filter_split)
  next
    case True
    then obtain f l where fi: "fi = Some f" and la: "la = Some l" and "f \<noteq> l"
      by (auto simp: anchored_def)
    let ?mid = "middleIndices ?n f l fl"
    from few True fi la have "length ?mid \<le> 2" by simp
    then have base: "mset (anchoredBase edgeData f l ?mid) = {#f, l#} + mset ?mid"
      by (rule anchoredBase_mset)
    have order: "finalOrder edgeData = anchoredBase edgeData f l ?mid @ fl"
      using finalOrder_anchored [of edgeData f l fl] c fi la \<open>f \<noteq> l\<close> by simp
    have f: "f < ?n" "\<not> floating edgeData f"
      using facts(2) [OF fi] by (auto simp: firstCandidate_def floating_def)
    have l: "l < ?n" "\<not> floating edgeData l"
      using facts(3) [OF la] by (auto simp: lastCandidate_def floating_def)
    have "mset (finalOrder edgeData) = mset ([f, l] @ ?mid @ fl)"
      using order base by simp
    also have "\<dots> = mset [0..<?n]"
    proof (rule set_eq_iff_mset_eq_distinct [THEN iffD1])
      show "distinct ([f, l] @ ?mid @ fl)"
        using \<open>f \<noteq> l\<close> f l by (auto simp: middleIndices_def fl)
      show "distinct [0..<?n]" by simp
      show "set ([f, l] @ ?mid @ fl) = set [0..<?n]"
        using f l by (auto simp: middleIndices_def fl)
    qed
    finally show ?thesis .
  qed
qed

text \<open>
  Claim C1 states that the returned order is a permutation of the indices on the anchored
  path also when more than two middle indices remain. The source's last branch of the
  anchored path reads the first two middle indices only. For five images, the first with a
  blank top, the last with a blank bottom and three images without blank edges between
  them, the order \<open>findOptimalOrder\<close> returns has four entries: index 3 is missing.
\<close>

theorem anchored_path_drops_middle:
  "finalOrder (map getEdgePixels fiveImages) = [0, 1, 2, 4]
   \<and> length (findOptimalOrder fiveImages) = 4
   \<and> length fiveImages = 5
   \<and> 3 \<notin> set (finalOrder (map getEdgePixels fiveImages))"
  by code_simp

section \<open>The fallback search\<close>

lemma num_lt_le_trans: "num_lt a b \<Longrightarrow> num_le b c \<Longrightarrow> num_lt a c"
  by (cases a; cases b; cases c) simp_all

lemma num_not_lt_le: "\<not> num_lt (Num y) (Num x) \<Longrightarrow> num_le (Num x) (Num y)"
  by simp

lemma pairDiff_Num:
  assumes "bottomPixels (edgeData ! i) \<noteq> []" and "topPixels (edgeData ! j) \<noteq> []"
  shows "\<exists>v. pairDiff edgeData i j = Num v"
  using assms by (simp add: pairDiff_def calculatePixelDifference_def Let_def)

lemma fold_num_add_Num:
  assumes "\<forall>i \<in> set js. \<exists>v. g i = Num v"
  shows "\<exists>v. fold (\<lambda>i totalDiff. num_add totalDiff (g i)) js (Num a) = Num v"
  using assms
proof (induction js arbitrary: a)
  case Nil
  show ?case by simp
next
  case (Cons j js)
  then obtain v where "g j = Num v" by auto
  with Cons show ?case by simp
qed

lemma permScore_Num:
  assumes "distinct perm"
    and "\<forall>x \<in> set perm. \<forall>y \<in> set perm. x \<noteq> y \<longrightarrow>
           bottomPixels (edgeData ! x) \<noteq> [] \<and> topPixels (edgeData ! y) \<noteq> []"
  shows "\<exists>v. permScore edgeData perm = Num v"
  unfolding permScore_def
proof (rule fold_num_add_Num, rule ballI)
  fix i
  assume "i \<in> set [0..<length perm - 1]"
  then have i: "i < length perm" "i + 1 < length perm" by auto
  then have "perm ! i \<in> set perm" "perm ! (i + 1) \<in> set perm" by simp_all
  moreover have "perm ! i \<noteq> perm ! (i + 1)"
    using assms(1) i by (simp add: nth_eq_iff_index_eq)
  ultimately have "bottomPixels (edgeData ! (perm ! i)) \<noteq> []
                   \<and> topPixels (edgeData ! (perm ! (i + 1))) \<noteq> []"
    using assms(2) by blast
  then show "\<exists>v. pairDiff edgeData (perm ! i) (perm ! (i + 1)) = Num v"
    by (intro pairDiff_Num) simp_all
qed

lemma search_best:
  assumes "ps \<noteq> []" and "\<forall>p \<in> set ps. \<exists>v. permScore edgeData p = Num v"
  shows "\<exists>k<length ps.
           fold (searchStep edgeData) ps (b0, Infinity) = (ps ! k, permScore edgeData (ps ! k))
           \<and> (\<forall>j<k. num_lt (permScore edgeData (ps ! k)) (permScore edgeData (ps ! j)))
           \<and> (\<forall>j<length ps. num_le (permScore edgeData (ps ! k)) (permScore edgeData (ps ! j)))"
  using assms
proof (induction ps rule: rev_nonempty_induct)
  case (single q)
  then obtain v where "permScore edgeData q = Num v" by auto
  then show ?case by (simp add: searchStep_def Let_def)
next
  case (snoc q qs)
  let ?sc = "permScore edgeData"
  from snoc.prems have all: "\<forall>p \<in> set qs. \<exists>v. ?sc p = Num v" by simp
  from snoc.IH [OF all] obtain k where k: "k < length qs"
    and st: "fold (searchStep edgeData) qs (b0, Infinity) = (qs ! k, ?sc (qs ! k))"
    and before: "\<forall>j<k. num_lt (?sc (qs ! k)) (?sc (qs ! j))"
    and least: "\<forall>j<length qs. num_le (?sc (qs ! k)) (?sc (qs ! j))"
    by blast
  from snoc.prems obtain vq where vq: "?sc q = Num vq" by auto
  from all k obtain vk where vk: "?sc (qs ! k) = Num vk" by force
  have old: "(qs @ [q]) ! j = qs ! j" if "j < length qs" for j
    using that by (simp add: nth_append)
  have new: "(qs @ [q]) ! length qs = q" by simp
  show ?case
  proof (cases "num_lt (?sc q) (?sc (qs ! k))")
    case True
    have "fold (searchStep edgeData) (qs @ [q]) (b0, Infinity) = (q, ?sc q)"
      using st True by (simp add: searchStep_def Let_def)
    moreover have "\<forall>j<length qs. num_lt (?sc q) (?sc (qs ! j))"
      using True least num_lt_le_trans by blast
    moreover have "num_le (?sc q) (?sc q)" using vq by simp
    ultimately have "fold (searchStep edgeData) (qs @ [q]) (b0, Infinity)
                       = ((qs @ [q]) ! length qs, ?sc ((qs @ [q]) ! length qs))
         \<and> (\<forall>j<length qs. num_lt (?sc ((qs @ [q]) ! length qs)) (?sc ((qs @ [q]) ! j)))
         \<and> (\<forall>j<length (qs @ [q]). num_le (?sc ((qs @ [q]) ! length qs)) (?sc ((qs @ [q]) ! j)))"
      using old new num_lt_le by (auto simp: less_Suc_eq)
    then show ?thesis by (intro exI [of _ "length qs"]) simp
  next
    case False
    have "fold (searchStep edgeData) (qs @ [q]) (b0, Infinity) = (qs ! k, ?sc (qs ! k))"
      using st False by (simp add: searchStep_def Let_def)
    moreover have "num_le (?sc (qs ! k)) (?sc q)"
      using False vq vk by simp
    ultimately have "fold (searchStep edgeData) (qs @ [q]) (b0, Infinity)
                       = ((qs @ [q]) ! k, ?sc ((qs @ [q]) ! k))
         \<and> (\<forall>j<k. num_lt (?sc ((qs @ [q]) ! k)) (?sc ((qs @ [q]) ! j)))
         \<and> (\<forall>j<length (qs @ [q]). num_le (?sc ((qs @ [q]) ! k)) (?sc ((qs @ [q]) ! j)))"
      using old new k before least by (auto simp: less_Suc_eq)
    with k show ?thesis by (intro exI [of _ k]) simp
  qed
qed

text \<open>
  The search over a list of permutations whose scores are all numbers ends with the first
  permutation of least score. On the edge data this needs that no two distinct non-floating
  images are compared at length 0.
\<close>

lemma fallback_search_minimal:
  assumes fallback: "\<not> anchored (fst (classify edgeData)) (fst (snd (classify edgeData)))"
    and nonempty: "\<forall>i<length edgeData. \<forall>j<length edgeData.
                     i \<noteq> j \<and> \<not> floating edgeData i \<and> \<not> floating edgeData j \<longrightarrow>
                     bottomPixels (edgeData ! i) \<noteq> [] \<and> topPixels (edgeData ! j) \<noteq> []"
  shows "\<exists>best k.
           finalOrder edgeData = best @ filter (floating edgeData) [0..<length edgeData]
           \<and> distinct best
           \<and> set best = {i. i < length edgeData \<and> \<not> floating edgeData i}
           \<and> (\<forall>p. distinct p \<and> set p = {i. i < length edgeData \<and> \<not> floating edgeData i}
                  \<longrightarrow> num_le (permScore edgeData best) (permScore edgeData p))
           \<and> k < length (getPermutations
                          (filter (\<lambda>i. \<not> floating edgeData i) [0..<length edgeData]))
           \<and> getPermutations
                (filter (\<lambda>i. \<not> floating edgeData i) [0..<length edgeData]) ! k = best
           \<and> (\<forall>j<k. num_lt (permScore edgeData best)
                       (permScore edgeData
                          (getPermutations
                             (filter (\<lambda>i. \<not> floating edgeData i) [0..<length edgeData]) ! j)))"
proof -
  let ?n = "length edgeData"
  let ?fl = "filter (floating edgeData) [0..<?n]"
  let ?idx = "filter (\<lambda>i. \<not> floating edgeData i) [0..<?n]"
  let ?ps = "getPermutations ?idx"
  let ?sc = "permScore edgeData"
  obtain fi la fl where c: "classify edgeData = (fi, la, fl)"
    by (cases "classify edgeData") auto
  have fl: "fl = ?fl" by (rule classify_anchor_facts(1) [OF c])
  from fallback c have "\<not> anchored fi la" by simp
  from finalOrder_fallback [OF c this]
  have order: "finalOrder edgeData = fallbackBest edgeData ?idx @ ?fl"
    by (simp add: fl nonFloating_eq)
  have idx_set: "set ?idx = {i. i < ?n \<and> \<not> floating edgeData i}" by auto
  have idx_distinct: "distinct ?idx" by simp
  have ne: "?ps \<noteq> []" using getPermutations_first by blast
  have scores: "\<forall>p \<in> set ?ps. \<exists>v. ?sc p = Num v"
  proof
    fix p
    assume "p \<in> set ?ps"
    then have "mset p = mset ?idx" by (rule getPermutations_mset)
    then have "set p = set ?idx" and "distinct p"
      using idx_distinct mset_eq_setD mset_eq_imp_distinct_iff by blast+
    with nonempty show "\<exists>v. ?sc p = Num v"
      by (intro permScore_Num) auto
  qed
  from search_best [OF ne scores, of ?idx] obtain k where k: "k < length ?ps"
    and st: "fold (searchStep edgeData) ?ps (?idx, Infinity) = (?ps ! k, ?sc (?ps ! k))"
    and before: "\<forall>j<k. num_lt (?sc (?ps ! k)) (?sc (?ps ! j))"
    and least: "\<forall>j<length ?ps. num_le (?sc (?ps ! k)) (?sc (?ps ! j))"
    by blast
  let ?best = "?ps ! k"
  have best: "fallbackBest edgeData ?idx = ?best"
    by (simp add: fallbackBest_def st)
  have "?best \<in> set ?ps" using k by simp
  then have mset_best: "mset ?best = mset ?idx" by (rule getPermutations_mset)
  then have "set ?best = set ?idx" by (rule mset_eq_setD)
  with idx_set have set_best: "set ?best = {i. i < ?n \<and> \<not> floating edgeData i}" by simp
  have distinct_best: "distinct ?best"
    using mset_best idx_distinct by (metis mset_eq_imp_distinct_iff)
  have minimal: "num_le (?sc ?best) (?sc p)"
    if "distinct p \<and> set p = {i. i < ?n \<and> \<not> floating edgeData i}" for p
  proof -
    from that idx_set have "distinct p" "set p = set ?idx" by simp_all
    with idx_distinct have "mset p = mset ?idx"
      using set_eq_iff_mset_eq_distinct [of p ?idx] by blast
    then have "p \<in> set ?ps" by (rule getPermutations_complete)
    then obtain j where j: "j < length ?ps" and pj: "?ps ! j = p"
      unfolding in_set_conv_nth by blast
    from least j have "num_le (?sc ?best) (?sc (?ps ! j))" by blast
    then show ?thesis unfolding pj .
  qed
  show ?thesis
  proof (rule exI [of _ ?best], rule exI [of _ k], intro conjI)
    show "finalOrder edgeData = ?best @ ?fl" by (simp only: order best)
    show "distinct ?best" by (rule distinct_best)
    show "set ?best = {i. i < ?n \<and> \<not> floating edgeData i}" by (rule set_best)
    show "\<forall>p. distinct p \<and> set p = {i. i < ?n \<and> \<not> floating edgeData i}
                  \<longrightarrow> num_le (?sc ?best) (?sc p)"
      using minimal by blast
    show "k < length ?ps" by (rule k)
    show "?ps ! k = ?best" by (rule refl)
    show "\<forall>j<k. num_lt (?sc ?best) (?sc (?ps ! j))" by (rule before)
  qed
qed

text \<open>
  A row of an image at least one pixel wide is not empty, and neither is its sample.
\<close>

lemma samplePixels_keeps:
  "pixels \<noteq> [] \<Longrightarrow> samplePixels rowData i pixels \<noteq> []"
proof (induction rowData i pixels rule: samplePixels.induct)
  case (1 rowData i pixels)
  show ?case
  proof (cases "i < length rowData")
    case True
    have "samplePixels rowData i pixels =
            samplePixels rowData (i + 40)
              (pixels @ [rowData ! i, rowData ! (i + 1), rowData ! (i + 2)])"
      using True by (subst samplePixels.simps) simp
    with "1.IH" [OF True] show ?thesis by simp
  next
    case False
    with "1.prems" show ?thesis by (subst samplePixels.simps) simp
  qed
qed

lemma samplePixels_nonempty:
  assumes "rowData \<noteq> []"
  shows "samplePixels rowData 0 [] \<noteq> []"
proof -
  have "samplePixels rowData 0 [] =
          samplePixels rowData 40 ([] @ [rowData ! 0, rowData ! (0 + 1), rowData ! (0 + 2)])"
    using assms by (subst samplePixels.simps) simp
  then show ?thesis using samplePixels_keeps by simp
qed

lemma getEdgePixels_nonempty:
  assumes "\<forall>y. imageData img y \<noteq> []"
  shows "topPixels (getEdgePixels img) \<noteq> [] \<and> bottomPixels (getEdgePixels img) \<noteq> []"
  using assms by (simp add: getEdgePixels_def Let_def samplePixels_nonempty)

text \<open>
  Claim C2. For every list of images (each at least one pixel wide, its rows holding four
  bytes per pixel) that takes the fallback path, the returned order of the non-floating
  indices is a permutation of them whose total adjacent-pair score, the sum over
  consecutive pairs of \<open>calculatePixelDifference\<close> of the bottom fingerprint of the left
  image and the top fingerprint of the right one as the search loop adds it up, is less
  than or equal to that of every permutation of the same indices; and it is the earliest
  permutation generated by \<open>getPermutations\<close> with that score: every permutation generated
  before it has a strictly greater score.
\<close>

theorem fallback_minimal:
  assumes shape: "\<forall>img \<in> set imageElements.
                    0 < naturalWidth img
                    \<and> (\<forall>y. length (imageData img y) = 4 * naturalWidth img)"
    and edgeData: "edgeData = map getEdgePixels imageElements"
    and fallback: "\<not> anchored (fst (classify edgeData)) (fst (snd (classify edgeData)))"
  shows "\<exists>best k.
           finalOrder edgeData = best @ filter (floating edgeData) [0..<length edgeData]
           \<and> distinct best
           \<and> set best = {i. i < length edgeData \<and> \<not> floating edgeData i}
           \<and> (\<forall>p. distinct p \<and> set p = {i. i < length edgeData \<and> \<not> floating edgeData i}
                  \<longrightarrow> num_le (permScore edgeData best) (permScore edgeData p))
           \<and> k < length (getPermutations
                          (filter (\<lambda>i. \<not> floating edgeData i) [0..<length edgeData]))
           \<and> getPermutations
                (filter (\<lambda>i. \<not> floating edgeData i) [0..<length edgeData]) ! k = best
           \<and> (\<forall>j<k. num_lt (permScore edgeData best)
                       (permScore edgeData
                          (getPermutations
                             (filter (\<lambda>i. \<not> floating edgeData i) [0..<length edgeData]) ! j)))"
proof -
  have "topPixels (edgeData ! i) \<noteq> [] \<and> bottomPixels (edgeData ! i) \<noteq> []"
    if "i < length edgeData" for i
  proof -
    from that edgeData have i: "i < length imageElements"
      and sig: "edgeData ! i = getEdgePixels (imageElements ! i)" by simp_all
    from i have "imageElements ! i \<in> set imageElements" by simp
    with shape have w: "0 < naturalWidth (imageElements ! i)"
      and len: "\<forall>y. length (imageData (imageElements ! i) y)
                      = 4 * naturalWidth (imageElements ! i)"
      by blast+
    have "\<forall>y. imageData (imageElements ! i) y \<noteq> []"
    proof
      fix y
      from len have "length (imageData (imageElements ! i) y)
                       = 4 * naturalWidth (imageElements ! i)" ..
      with w have "0 < length (imageData (imageElements ! i) y)" by simp
      then show "imageData (imageElements ! i) y \<noteq> []" by simp
    qed
    from getEdgePixels_nonempty [OF this] sig show ?thesis by simp
  qed
  then have "\<forall>i<length edgeData. \<forall>j<length edgeData.
                     i \<noteq> j \<and> \<not> floating edgeData i \<and> \<not> floating edgeData j \<longrightarrow>
                     bottomPixels (edgeData ! i) \<noteq> [] \<and> topPixels (edgeData ! j) \<noteq> []"
    by blast
  from fallback_search_minimal [OF fallback this] show ?thesis .
qed

text \<open>
  Three images for which the orders \<open>[0, 1, 2]\<close> and \<open>[0, 2, 1]\<close> both have the exact
  total \<open>10 / 3\<close>; added up in doubles the second total is the smaller one, and the search
  returns the second order.
\<close>

theorem fallback_minimal_witness:
  "\<not> anchored (fst (classify (map getEdgePixels roundingThree)))
                (fst (snd (classify (map getEdgePixels roundingThree))))
   \<and> finalOrder (map getEdgePixels roundingThree) = [0, 2, 1]
   \<and> permScore (map getEdgePixels roundingThree) [0, 2, 1]
       = Num (3752999689475413 / 1125899906842624)
   \<and> permScore (map getEdgePixels roundingThree) [0, 1, 2]
       = Num (7505999378950827 / 2251799813685248)
   \<and> num_le (permScore (map getEdgePixels roundingThree) [0, 2, 1])
             (permScore (map getEdgePixels roundingThree) [0, 1, 2])"
proof -
  let ?e = "map getEdgePixels roundingThree"
  have shape: "\<forall>img \<in> set roundingThree.
                 0 < naturalWidth img
                 \<and> (\<forall>y. length (imageData img y) = 4 * naturalWidth img)"
    by (simp add: roundingThree_def twoRowImage_def pixelRow_def)
  have fallback: "\<not> anchored (fst (classify ?e)) (fst (snd (classify ?e)))"
    by code_simp
  have len: "length ?e = 3" by (simp add: roundingThree_def)
  have order: "finalOrder ?e = [0, 2, 1]" by code_simp
  have none: "filter (floating ?e) [0..<length ?e] = []" by code_simp
  have plain: "\<not> floating ?e 0" "\<not> floating ?e 1" "\<not> floating ?e 2" by code_simp+
  have "{i. i < length ?e \<and> \<not> floating ?e i} = {0, 1, 2}"
    unfolding len using plain by (auto simp: less_Suc_eq numeral_3_eq_3)
  then have other: "distinct [0, 1, 2 :: nat]
     \<and> set [0, 1, 2] = {i. i < length ?e \<and> \<not> floating ?e i}"
    by auto
  from fallback_minimal [OF shape refl fallback] obtain best where
    "finalOrder ?e = best @ filter (floating ?e) [0..<length ?e]"
    and least: "\<forall>p. distinct p \<and> set p = {i. i < length ?e \<and> \<not> floating ?e i}
        \<longrightarrow> num_le (permScore ?e best) (permScore ?e p)"
    by blast
  then have "best = [0, 2, 1]" by (simp only: order none append_Nil2)
  with least other have "num_le (permScore ?e [0, 2, 1]) (permScore ?e [0, 1, 2])"
    by blast
  moreover have "permScore ?e [0, 2, 1] = Num (3752999689475413 / 1125899906842624)"
    by code_simp
  moreover have "permScore ?e [0, 1, 2] = Num (7505999378950827 / 2251799813685248)"
    by code_simp
  ultimately show ?thesis using fallback order by blast
qed

end
